theory Spec2Isabelle
  imports Main "HOL-Library.Sublist"
begin

section \<open>The overlapping task processor of aocommon\<close>

text \<open>
  This theory embeds \<^verbatim>\<open>aocommon::OverlappingTaskProcessor\<close>
  (\<^verbatim>\<open>src/vendor/aocommon/aocommon/overlappingtaskprocessor.h\<close>). The class owns three
  semaphores and a reference to a task queue; every call of \<^verbatim>\<open>Process\<close> runs on its
  caller's thread, and every submitted work item runs on a thread of the pool. The
  embedding is an interleaving semantics: a state holds the semaphore counters, the
  control point of every \<^verbatim>\<open>Process\<close> call and the progress of every work item; an
  event is one statement of one thread; a schedule is a list of events. The function
  \<open>fire\<close> executes one event and returns \<open>None\<close> when the thread is not at that statement
  or the statement blocks (an \<^verbatim>\<open>acquire\<close> on a semaphore whose counter is zero).

  The headers \<^verbatim>\<open>lane.h\<close>, \<^verbatim>\<open>taskqueue.h\<close> and \<^verbatim>\<open>logger.h\<close> are not part of the sources
  at hand. The lane of a call is the list of chunks it still has to emit
  (\<^verbatim>\<open>read\<close> pops the head, or reports the end of the stream on the empty list); the task
  queue is the list of work items in submission order, each of which a worker may pick up
  at any later moment; the debug logger is the list of lines written so far. The callback
  is caller code: the events \<open>CbStart\<close>, \<open>CbSignal\<close>, \<open>CbReturn\<close> and \<open>CbRaise\<close>
  are what the coordinator can observe of it. A callback releases the binary semaphore
  handed to it at most once (a second release of a \<^verbatim>\<open>std::binary_semaphore\<close> at its
  maximum is undefined behaviour and has no model); it may return without releasing, and
  it may exit by an exception before or after releasing.

  The loop counter \<^verbatim>\<open>chunk_index\<close> has type \<^verbatim>\<open>size_t\<close>; it is a natural number here,
  which is exact for every call that reads fewer chunks than \<^verbatim>\<open>size_t\<close> has values.
\<close>

subsection \<open>State\<close>

text \<open>
  The control points of one call of \<^verbatim>\<open>Process\<close>, named after the statement the thread
  executes next. Inside \<^verbatim>\<open>QueueChunk\<close> the position carries the parameter
  \<^verbatim>\<open>chunk_data\<close>.
\<close>

datatype 'a position =
    AtLaneAcquire
  | AtRead
  | AtCountAcquire 'a
  | AtCurAcquire 'a
  | AtOrderAcquire 'a
  | AtEmplace 'a
  | AtLaneRelease
  | AtDrain nat
  | Returned

record 'a invocation =
  data_lane :: "'a list"
  log_tag :: string
  currently_processing_semaphore :: nat
  chunk_index :: nat
  pc :: "'a position"

text \<open>
  The progress of one work item (the lambda of \<^verbatim>\<open>QueueChunk\<close>): waiting in the queue,
  inside the callback, about to release the semaphore of its call, about to release the
  semaphore of the instance, finished; or aborted, when the callback left by an exception
  and the rest of the body was skipped.
\<close>

datatype phase = Queued | InCallback | AtCurRelease | AtCountRelease | Finished | Aborted

text \<open>
  A work item captures the payload, the index and a reference to the semaphore local to
  the call that submitted it (\<open>owner\<close> is that call). \<open>signaled\<close> records that the
  callback has released the order semaphore.
\<close>

record 'a work_item =
  owner :: nat
  item_index :: nat
  item_data :: 'a
  phase :: phase
  signaled :: bool

text \<open>
  \<open>calls\<close> lists the arguments of every callback invocation made so far, in the order
  in which the invocations started: the call it belongs to, the index and the payload.
\<close>

record 'a state =
  processing_count_semaphore :: nat
  processing_order_semaphore :: nat
  lane_process_semaphore :: nat
  invocations :: "'a invocation list"
  task_queue :: "'a work_item list"
  calls :: "(nat \<times> nat \<times> 'a) list"
  debug_log :: "string list"

subsection \<open>Semaphores and logging\<close>

text \<open>\<^verbatim>\<open>acquire\<close> blocks while the counter is zero; \<^verbatim>\<open>release\<close> adds one unit.\<close>

definition acquire :: "nat \<Rightarrow> nat option" where
  "acquire c = (if 0 < c then Some (c - 1) else None)"

definition release :: "nat \<Rightarrow> nat" where
  "release c = Suc c"

fun show_nat :: "nat \<Rightarrow> string" where
  "show_nat n =
     (if n < 10 then [char_of (48 + n)]
      else show_nat (n div 10) @ [char_of (48 + n mod 10)])"

declare show_nat.simps [simp del]

text \<open>
  Modelled from the spec: \<^verbatim>\<open>aocommon::Logger::Debug\<close> (\<^verbatim>\<open>logger.h\<close>) is a diagnostic sink;
  the lines written to it are kept in \<open>debug_log\<close>, in the order of the writes. The test
  on the tag is the one of the source: a line is written only when the tag is not empty.
\<close>

definition debug :: "string \<Rightarrow> string \<Rightarrow> 'a state \<Rightarrow> 'a state" where
  "debug tag line s = (if tag \<noteq> [] then s\<lparr>debug_log := debug_log s @ [line]\<rparr> else s)"

definition put_inv :: "nat \<Rightarrow> 'a invocation \<Rightarrow> 'a state \<Rightarrow> 'a state" where
  "put_inv i p s = s\<lparr>invocations := (invocations s)[i := p]\<rparr>"

definition put_item :: "nat \<Rightarrow> 'a work_item \<Rightarrow> 'a state \<Rightarrow> 'a state" where
  "put_item t w s = s\<lparr>task_queue := (task_queue s)[t := w]\<rparr>"

subsection \<open>Events and steps\<close>

text \<open>
  The first nine events are statements of the call with the given number; the last six
  are steps of the work item at the given place of the task queue.
\<close>

datatype event =
    LaneAcquire nat
  | LaneRead nat
  | CountAcquire nat
  | CurAcquire nat
  | OrderAcquire nat
  | Emplace nat
  | LaneRelease nat
  | DrainAcquire nat
  | ProcessReturn nat
  | CbStart nat
  | CbSignal nat
  | CbReturn nat
  | CbRaise nat
  | CurRelease nat
  | CountRelease nat

text \<open>
  \<^verbatim>\<open>ProcessAllChunksForLane\<close>: acquire the lane semaphore, then read chunks until the
  lane reports its end, queueing each; then release the lane semaphore.
\<close>

definition lane_acquire :: "nat \<Rightarrow> 'a invocation \<Rightarrow> 'a state \<Rightarrow> 'a state option" where
  "lane_acquire i p s =
     (case pc p of
        AtLaneAcquire \<Rightarrow>
          (case acquire (lane_process_semaphore s) of
             None \<Rightarrow> None
           | Some c \<Rightarrow>
               Some (put_inv i (p\<lparr>chunk_index := 0, pc := AtRead\<rparr>)
                      (s\<lparr>lane_process_semaphore := c\<rparr>)))
      | _ \<Rightarrow> None)"

text \<open>
  Modelled from the spec: \<^verbatim>\<open>Lane::read\<close> (\<^verbatim>\<open>lane.h\<close>) is a blocking read that yields the
  next chunk, or reports that the stream has ended and no chunk will follow. The lane is
  the list of the chunks its producer writes before closing it; a read that waits for the
  producer is a read that takes place later in the schedule.
\<close>

definition lane_read :: "nat \<Rightarrow> 'a invocation \<Rightarrow> 'a state \<Rightarrow> 'a state option" where
  "lane_read i p s =
     (case pc p of
        AtRead \<Rightarrow>
          (case data_lane p of
             [] \<Rightarrow> Some (put_inv i (p\<lparr>pc := AtLaneRelease\<rparr>) s)
           | x # xs \<Rightarrow>
               Some (put_inv i (p\<lparr>data_lane := xs, pc := AtCountAcquire x\<rparr>)
                      (debug (log_tag p)
                         (''Queue '' @ log_tag p @ '' chunk '' @ show_nat (chunk_index p)
                            @ [CHR ''.'', CHR 0x0A]) s)))
      | _ \<Rightarrow> None)"

definition lane_release :: "nat \<Rightarrow> 'a invocation \<Rightarrow> 'a state \<Rightarrow> 'a state option" where
  "lane_release i p s =
     (case pc p of
        AtLaneRelease \<Rightarrow>
          Some (put_inv i (p\<lparr>pc := AtDrain 0\<rparr>)
                 (debug (log_tag p) (''All '' @ log_tag p @ '' chunks queued.'' @ [CHR 0x0A])
                    (s\<lparr>lane_process_semaphore := release (lane_process_semaphore s)\<rparr>)))
      | _ \<Rightarrow> None)"

text \<open>
  \<^verbatim>\<open>QueueChunk\<close>: three acquires, then the work item is placed at the end of the task
  queue; back in the loop the index is incremented.
\<close>

definition count_acquire :: "nat \<Rightarrow> 'a invocation \<Rightarrow> 'a state \<Rightarrow> 'a state option" where
  "count_acquire i p s =
     (case pc p of
        AtCountAcquire x \<Rightarrow>
          (case acquire (processing_count_semaphore s) of
             None \<Rightarrow> None
           | Some c \<Rightarrow>
               Some (put_inv i (p\<lparr>pc := AtCurAcquire x\<rparr>)
                      (s\<lparr>processing_count_semaphore := c\<rparr>)))
      | _ \<Rightarrow> None)"

definition cur_acquire :: "nat \<Rightarrow> 'a invocation \<Rightarrow> 'a state \<Rightarrow> 'a state option" where
  "cur_acquire i p s =
     (case pc p of
        AtCurAcquire x \<Rightarrow>
          (case acquire (currently_processing_semaphore p) of
             None \<Rightarrow> None
           | Some c \<Rightarrow>
               Some (put_inv i (p\<lparr>currently_processing_semaphore := c,
                                    pc := AtOrderAcquire x\<rparr>) s))
      | _ \<Rightarrow> None)"

definition order_acquire :: "nat \<Rightarrow> 'a invocation \<Rightarrow> 'a state \<Rightarrow> 'a state option" where
  "order_acquire i p s =
     (case pc p of
        AtOrderAcquire x \<Rightarrow>
          (case acquire (processing_order_semaphore s) of
             None \<Rightarrow> None
           | Some c \<Rightarrow>
               Some (put_inv i (p\<lparr>pc := AtEmplace x\<rparr>)
                      (s\<lparr>processing_order_semaphore := c\<rparr>)))
      | _ \<Rightarrow> None)"

text \<open>
  Modelled from the spec: \<^verbatim>\<open>TaskQueue::Emplace\<close> (\<^verbatim>\<open>taskqueue.h\<close>) accepts a work item
  without waiting for it to run; the workers of the pool run the accepted items, each at
  some later moment of its own. Here the item is appended to \<open>task_queue\<close> in the phase
  \<open>Queued\<close>, and the events of a work item are enabled by its phase alone, whatever
  the other items do; a pool of fewer threads has fewer schedules, all of them among
  these.
\<close>

definition emplace :: "nat \<Rightarrow> 'a invocation \<Rightarrow> 'a state \<Rightarrow> 'a state option" where
  "emplace i p s =
     (case pc p of
        AtEmplace x \<Rightarrow>
          Some (put_inv i (p\<lparr>chunk_index := Suc (chunk_index p), pc := AtRead\<rparr>)
                 (s\<lparr>task_queue := task_queue s @
                      [\<lparr>owner = i, item_index = chunk_index p, item_data = x,
                        phase = Queued, signaled = False\<rparr>]\<rparr>))
      | _ \<Rightarrow> None)"

text \<open>
  The end of \<^verbatim>\<open>Process\<close>: the loop \<^verbatim>\<open>for (i = 0; i < 2; ++i)\<close> acquires the local
  semaphore; once the loop test fails the call logs and returns.
\<close>

definition drain_acquire :: "nat \<Rightarrow> 'a invocation \<Rightarrow> 'a state \<Rightarrow> 'a state option" where
  "drain_acquire i p s =
     (case pc p of
        AtDrain k \<Rightarrow>
          (if k < 2 then
             (case acquire (currently_processing_semaphore p) of
                None \<Rightarrow> None
              | Some c \<Rightarrow>
                  Some (put_inv i (p\<lparr>currently_processing_semaphore := c,
                                       pc := AtDrain (Suc k)\<rparr>) s))
           else None)
      | _ \<Rightarrow> None)"

definition process_return :: "nat \<Rightarrow> 'a invocation \<Rightarrow> 'a state \<Rightarrow> 'a state option" where
  "process_return i p s =
     (case pc p of
        AtDrain k \<Rightarrow>
          (if k < 2 then None
           else Some (put_inv i (p\<lparr>pc := Returned\<rparr>)
                       (debug (log_tag p)
                          (''All '' @ log_tag p @ '' chunks processed.'' @ [CHR 0x0A]) s)))
      | _ \<Rightarrow> None)"

text \<open>
  The body of the work item: the callback, then the release of the local semaphore of
  the submitting call, then the release of the count semaphore. The callback receives
  the order semaphore and may release it while it runs.
\<close>

definition cb_start :: "nat \<Rightarrow> 'a work_item \<Rightarrow> 'a state \<Rightarrow> 'a state option" where
  "cb_start t w s =
     (if phase w = Queued then
        Some (put_item t (w\<lparr>phase := InCallback\<rparr>)
               (s\<lparr>calls := calls s @ [(owner w, item_index w, item_data w)]\<rparr>))
      else None)"

definition cb_signal :: "nat \<Rightarrow> 'a work_item \<Rightarrow> 'a state \<Rightarrow> 'a state option" where
  "cb_signal t w s =
     (if phase w = InCallback \<and> \<not> signaled w then
        Some (put_item t (w\<lparr>signaled := True\<rparr>)
               (s\<lparr>processing_order_semaphore := release (processing_order_semaphore s)\<rparr>))
      else None)"

definition cb_return :: "nat \<Rightarrow> 'a work_item \<Rightarrow> 'a state \<Rightarrow> 'a state option" where
  "cb_return t w s =
     (if phase w = InCallback then Some (put_item t (w\<lparr>phase := AtCurRelease\<rparr>) s)
      else None)"

definition cb_raise :: "nat \<Rightarrow> 'a work_item \<Rightarrow> 'a state \<Rightarrow> 'a state option" where
  "cb_raise t w s =
     (if phase w = InCallback then Some (put_item t (w\<lparr>phase := Aborted\<rparr>) s)
      else None)"

definition cur_release :: "nat \<Rightarrow> 'a work_item \<Rightarrow> 'a state \<Rightarrow> 'a state option" where
  "cur_release t w s =
     (if phase w = AtCurRelease \<and> owner w < length (invocations s) then
        Some (put_item t (w\<lparr>phase := AtCountRelease\<rparr>)
               (put_inv (owner w)
                  ((invocations s ! owner w)
                     \<lparr>currently_processing_semaphore :=
                        release (currently_processing_semaphore (invocations s ! owner w))\<rparr>)
                  s))
      else None)"

definition count_release :: "nat \<Rightarrow> 'a work_item \<Rightarrow> 'a state \<Rightarrow> 'a state option" where
  "count_release t w s =
     (if phase w = AtCountRelease then
        Some (put_item t (w\<lparr>phase := Finished\<rparr>)
               (s\<lparr>processing_count_semaphore := release (processing_count_semaphore s)\<rparr>))
      else None)"

definition coordinator ::
  "(nat \<Rightarrow> 'a invocation \<Rightarrow> 'a state \<Rightarrow> 'a state option) \<Rightarrow> nat \<Rightarrow> 'a state \<Rightarrow> 'a state option" where
  "coordinator f i s = (if i < length (invocations s) then f i (invocations s ! i) s else None)"

definition worker ::
  "(nat \<Rightarrow> 'a work_item \<Rightarrow> 'a state \<Rightarrow> 'a state option) \<Rightarrow> nat \<Rightarrow> 'a state \<Rightarrow> 'a state option" where
  "worker f t s = (if t < length (task_queue s) then f t (task_queue s ! t) s else None)"

fun fire :: "event \<Rightarrow> 'a state \<Rightarrow> 'a state option" where
  "fire (LaneAcquire i) s = coordinator lane_acquire i s"
| "fire (LaneRead i) s = coordinator lane_read i s"
| "fire (CountAcquire i) s = coordinator count_acquire i s"
| "fire (CurAcquire i) s = coordinator cur_acquire i s"
| "fire (OrderAcquire i) s = coordinator order_acquire i s"
| "fire (Emplace i) s = coordinator emplace i s"
| "fire (LaneRelease i) s = coordinator lane_release i s"
| "fire (DrainAcquire i) s = coordinator drain_acquire i s"
| "fire (ProcessReturn i) s = coordinator process_return i s"
| "fire (CbStart t) s = worker cb_start t s"
| "fire (CbSignal t) s = worker cb_signal t s"
| "fire (CbReturn t) s = worker cb_return t s"
| "fire (CbRaise t) s = worker cb_raise t s"
| "fire (CurRelease t) s = worker cur_release t s"
| "fire (CountRelease t) s = worker count_release t s"

text \<open>A schedule runs from a state as long as each of its events is enabled.\<close>

fun exec :: "event list \<Rightarrow> 'a state \<Rightarrow> 'a state option" where
  "exec [] s = Some s"
| "exec (e # es) s = (case fire e s of None \<Rightarrow> None | Some s' \<Rightarrow> exec es s')"

text \<open>
  The constructor of the class sets the three semaphores to 2, 1 and 1. A call of
  \<^verbatim>\<open>Process\<close> is given by its lane and its log tag; it starts with a fresh local
  semaphore at 2.
\<close>

definition new_invocation :: "'a list \<times> string \<Rightarrow> 'a invocation" where
  "new_invocation a =
     \<lparr>data_lane = fst a, log_tag = snd a, currently_processing_semaphore = 2,
      chunk_index = 0, pc = AtLaneAcquire\<rparr>"

definition init :: "('a list \<times> string) list \<Rightarrow> 'a state" where
  "init ps =
     \<lparr>processing_count_semaphore = 2, processing_order_semaphore = 1,
      lane_process_semaphore = 1, invocations = map new_invocation ps,
      task_queue = [], calls = [], debug_log = []\<rparr>"

section \<open>Notions for stating and proving the properties\<close>

subsection \<open>Counting\<close>

text \<open>
  \<open>units P xs\<close> counts the elements of \<open>xs\<close> that satisfy \<open>P\<close>, as an integer so
  that the effect of replacing one element is a plain sum.
\<close>

definition units :: "('a \<Rightarrow> bool) \<Rightarrow> 'a list \<Rightarrow> int" where
  "units P xs = sum_list (map (\<lambda>x. if P x then 1 else 0) xs)"

subsection \<open>Who holds a unit of which semaphore\<close>

text \<open>
  A call holds a unit of the count semaphore from its acquire in \<^verbatim>\<open>QueueChunk\<close> until the
  work item is in the queue; from then on the work item holds it until its last statement
  (for ever, when its callback raised). The order semaphore is held by the call between
  its acquire and \<^verbatim>\<open>Emplace\<close>, then by the work item until its callback signals. The lane
  semaphore is held by a call from its acquire to its release (\<open>pulling\<close>); a call is
  \<open>past_pulling\<close> once it has released it.
\<close>

definition holding_count :: "'a invocation \<Rightarrow> bool" where
  "holding_count p =
     (case pc p of AtCurAcquire _ \<Rightarrow> True | AtOrderAcquire _ \<Rightarrow> True | AtEmplace _ \<Rightarrow> True
      | _ \<Rightarrow> False)"

definition unfinished :: "'a work_item \<Rightarrow> bool" where
  "unfinished w \<longleftrightarrow> phase w \<noteq> Finished"

definition holding_order :: "'a invocation \<Rightarrow> bool" where
  "holding_order p = (case pc p of AtEmplace _ \<Rightarrow> True | _ \<Rightarrow> False)"

definition unsignaled :: "'a work_item \<Rightarrow> bool" where
  "unsignaled w \<longleftrightarrow> \<not> signaled w"

definition pulling :: "'a invocation \<Rightarrow> bool" where
  "pulling p =
     (case pc p of AtLaneAcquire \<Rightarrow> False | AtDrain _ \<Rightarrow> False | Returned \<Rightarrow> False | _ \<Rightarrow> True)"

definition past_pulling :: "'a invocation \<Rightarrow> bool" where
  "past_pulling p = (case pc p of AtDrain _ \<Rightarrow> True | Returned \<Rightarrow> True | _ \<Rightarrow> False)"

text \<open>
  The local semaphore of a call: one unit is taken for every chunk between the second
  acquire of \<^verbatim>\<open>QueueChunk\<close> and the release in the work item (never returned when the
  callback raised), and one by every round of the final loop.
\<close>

definition cur_taken :: "'a invocation \<Rightarrow> int" where
  "cur_taken p =
     (case pc p of AtOrderAcquire _ \<Rightarrow> 1 | AtEmplace _ \<Rightarrow> 1 | AtDrain k \<Rightarrow> int k
      | Returned \<Rightarrow> 2 | _ \<Rightarrow> 0)"

definition cur_pending :: "nat \<Rightarrow> 'a work_item \<Rightarrow> bool" where
  "cur_pending i w \<longleftrightarrow> owner w = i \<and> phase w \<in> {Queued, InCallback, AtCurRelease, Aborted}"

subsection \<open>Work items and callback invocations\<close>

text \<open>
  \<open>args\<close> are the identity of a work item: the call that submitted it and the two
  arguments it passes to the callback. A work item is \<open>started\<close> once a worker has
  entered its callback and \<open>in_callback\<close> until the callback returns or raises.
  \<open>items_of i\<close> are the work items call \<open>i\<close> has submitted, in submission order, and
  \<open>calls_of i\<close> the (index, payload) pairs its callback has received, in the order in which
  the invocations started. \<open>outstanding a\<close> counts the work items of call \<open>a\<close> that are
  queued but not finished. A call is \<open>quiet\<close> when it has not begun or has returned and all
  its work items finished after signalling. A state is \<open>well_behaved\<close> when no callback has
  raised and every callback that returned had signalled before; it is \<open>all_done\<close> when
  every call has returned and every work item has finished.
\<close>

definition args :: "'a work_item \<Rightarrow> nat \<times> nat \<times> 'a" where
  "args w = (owner w, item_index w, item_data w)"

definition started :: "'a work_item \<Rightarrow> bool" where
  "started w \<longleftrightarrow> phase w \<noteq> Queued"

definition in_callback :: "'a work_item \<Rightarrow> bool" where
  "in_callback w \<longleftrightarrow> phase w = InCallback"

definition returned_cb :: "phase \<Rightarrow> bool" where
  "returned_cb ph \<longleftrightarrow> ph = AtCurRelease \<or> ph = AtCountRelease \<or> ph = Finished"

definition released_cur :: "phase \<Rightarrow> bool" where
  "released_cur ph \<longleftrightarrow> ph = AtCountRelease \<or> ph = Finished"

definition aborted :: "'a work_item \<Rightarrow> bool" where
  "aborted w \<longleftrightarrow> phase w = Aborted"

definition items_of :: "nat \<Rightarrow> 'a state \<Rightarrow> 'a work_item list" where
  "items_of i s = filter (\<lambda>w. owner w = i) (task_queue s)"

definition calls_of :: "nat \<Rightarrow> 'a state \<Rightarrow> (nat \<times> 'a) list" where
  "calls_of i s = map snd (filter (\<lambda>c. fst c = i) (calls s))"

definition outstanding :: "nat \<Rightarrow> 'a state \<Rightarrow> nat" where
  "outstanding a s = length (filter (\<lambda>w. owner w = a \<and> unfinished w) (task_queue s))"

definition quiet :: "nat \<Rightarrow> 'a state \<Rightarrow> bool" where
  "quiet j s \<longleftrightarrow>
     (pc (invocations s ! j) = AtLaneAcquire \<or> pc (invocations s ! j) = Returned) \<and>
     (\<forall>w \<in> set (items_of j s). phase w = Finished \<and> signaled w)"

definition well_behaved :: "'a state \<Rightarrow> bool" where
  "well_behaved s \<longleftrightarrow>
     (\<forall>t < length (task_queue s). phase (task_queue s ! t) \<noteq> Aborted \<and>
        (returned_cb (phase (task_queue s ! t)) \<longrightarrow> signaled (task_queue s ! t)))"

definition all_done :: "'a state \<Rightarrow> bool" where
  "all_done s \<longleftrightarrow>
     (\<forall>i < length (invocations s). pc (invocations s ! i) = Returned) \<and>
     (\<forall>t < length (task_queue s). phase (task_queue s ! t) = Finished)"

subsection \<open>Invariants of reachable states\<close>

text \<open>
  The ledgers: for each semaphore the counter and the units held add up to the value the
  constructor gave it.
\<close>

definition count_ok :: "'a state \<Rightarrow> bool" where
  "count_ok s \<longleftrightarrow>
     int (processing_count_semaphore s) + units holding_count (invocations s)
       + units unfinished (task_queue s) = 2"

definition order_ok :: "'a state \<Rightarrow> bool" where
  "order_ok s \<longleftrightarrow>
     int (processing_order_semaphore s) + units holding_order (invocations s)
       + units unsignaled (task_queue s) = 1"

definition lane_ok :: "'a state \<Rightarrow> bool" where
  "lane_ok s \<longleftrightarrow> int (lane_process_semaphore s) + units pulling (invocations s) = 1"

definition cur_ok :: "'a state \<Rightarrow> bool" where
  "cur_ok s \<longleftrightarrow>
     (\<forall>i < length (invocations s).
        int (currently_processing_semaphore (invocations s ! i)) + cur_taken (invocations s ! i)
          + units (cur_pending i) (task_queue s) = 2)"

text \<open>
  The lane of a call, given what it was at the beginning (\<open>xs\<close>): the chunks still to be
  read are \<open>xs\<close> without its first \<open>chunk_index\<close> elements, and inside \<^verbatim>\<open>QueueChunk\<close> the
  chunk in hand is the element at \<open>chunk_index\<close>. The work items of a call carry the
  indices 0, 1, ... in submission order, each with the payload at that place of the lane.
  Every work item but the last has signalled (else the submitting call could not have
  acquired the order semaphore again), and \<open>calls\<close> lists the started work items.
\<close>

definition in_hand :: "'a list \<Rightarrow> nat \<Rightarrow> 'a list \<Rightarrow> 'a \<Rightarrow> bool" where
  "in_hand xs n d x \<longleftrightarrow> n < length xs \<and> x = xs ! n \<and> d = drop (Suc n) xs"

definition lane_pos :: "'a list \<Rightarrow> 'a position \<Rightarrow> nat \<Rightarrow> 'a list \<Rightarrow> bool" where
  "lane_pos xs l n d \<longleftrightarrow>
     (case l of
        AtLaneAcquire \<Rightarrow> d = xs \<and> n = 0
      | AtRead \<Rightarrow> n \<le> length xs \<and> d = drop n xs
      | AtCountAcquire x \<Rightarrow> in_hand xs n d x
      | AtCurAcquire x \<Rightarrow> in_hand xs n d x
      | AtOrderAcquire x \<Rightarrow> in_hand xs n d x
      | AtEmplace x \<Rightarrow> in_hand xs n d x
      | _ \<Rightarrow> n = length xs \<and> d = [])"

definition lane_ok_at :: "'a list \<times> string \<Rightarrow> 'a invocation \<Rightarrow> bool" where
  "lane_ok_at a p \<longleftrightarrow> log_tag p = snd a \<and> lane_pos (fst a) (pc p) (chunk_index p) (data_lane p)"

definition lanes_ok :: "('a list \<times> string) list \<Rightarrow> 'a state \<Rightarrow> bool" where
  "lanes_ok ps s \<longleftrightarrow> length (invocations s) = length ps \<and>
     (\<forall>i < length ps. lane_ok_at (ps ! i) (invocations s ! i))"

definition items_ok :: "('a list \<times> string) list \<Rightarrow> 'a state \<Rightarrow> bool" where
  "items_ok ps s \<longleftrightarrow>
     (\<forall>i. filter (\<lambda>a. fst a = i) (map args (task_queue s)) =
        (if i < length ps then map (\<lambda>k. (i, k, fst (ps ! i) ! k)) [0..<chunk_index (invocations s ! i)]
         else []))"

definition tail_ok :: "'a state \<Rightarrow> bool" where
  "tail_ok s \<longleftrightarrow>
     (\<forall>t. Suc t < length (task_queue s) \<longrightarrow> signaled (task_queue s ! t)) \<and>
     (\<forall>t < length (task_queue s). signaled (task_queue s ! t) \<longrightarrow> started (task_queue s ! t)) \<and>
     (\<forall>t < length (task_queue s). owner (task_queue s ! t) < length (invocations s))"

definition calls_ok :: "'a state \<Rightarrow> bool" where
  "calls_ok s \<longleftrightarrow> calls s = map args (filter started (task_queue s))"

definition invariant :: "('a list \<times> string) list \<Rightarrow> 'a state \<Rightarrow> bool" where
  "invariant ps s \<longleftrightarrow> count_ok s \<and> order_ok s \<and> lane_ok s \<and> cur_ok s \<and> lanes_ok ps s
     \<and> items_ok ps s \<and> tail_ok s \<and> calls_ok s"

subsection \<open>Invariants that relate a schedule to the state it reaches\<close>

text \<open>
  An event of a work item or the first event of a call has happened exactly when the state
  shows it. \<open>admission_order\<close>: a call that acquired the lane semaphore before another call
  did has released it.
\<close>

definition hist :: "event list \<Rightarrow> 'a state \<Rightarrow> bool" where
  "hist tr s \<longleftrightarrow>
     (\<forall>t. CbStart t \<in> set tr \<longleftrightarrow> t < length (task_queue s) \<and> started (task_queue s ! t)) \<and>
     (\<forall>t. CbSignal t \<in> set tr \<longleftrightarrow> t < length (task_queue s) \<and> signaled (task_queue s ! t)) \<and>
     (\<forall>t. CbReturn t \<in> set tr \<longleftrightarrow> t < length (task_queue s) \<and> returned_cb (phase (task_queue s ! t))) \<and>
     (\<forall>t. CbRaise t \<in> set tr \<longleftrightarrow> t < length (task_queue s) \<and> phase (task_queue s ! t) = Aborted) \<and>
     (\<forall>t. CurRelease t \<in> set tr \<longleftrightarrow> t < length (task_queue s) \<and> released_cur (phase (task_queue s ! t))) \<and>
     (\<forall>t. CountRelease t \<in> set tr \<longleftrightarrow> t < length (task_queue s) \<and> phase (task_queue s ! t) = Finished) \<and>
     (\<forall>i. LaneAcquire i \<in> set tr \<longleftrightarrow> i < length (invocations s) \<and> pc (invocations s ! i) \<noteq> AtLaneAcquire) \<and>
     (\<forall>i. ProcessReturn i \<in> set tr \<longleftrightarrow> i < length (invocations s) \<and> pc (invocations s ! i) = Returned)"

definition admission_order :: "event list \<Rightarrow> 'a state \<Rightarrow> bool" where
  "admission_order tr s \<longleftrightarrow>
     (\<forall>a b. LaneAcquire b \<in> set tr \<longrightarrow>
        LaneAcquire a \<in> set (takeWhile (\<lambda>e. e \<noteq> LaneAcquire b) tr) \<longrightarrow>
        a < length (invocations s) \<and> past_pulling (invocations s ! a))"

text \<open>
  Acquires and releases along a schedule, for the whole instance and for one call. The
  releases of the count semaphore and of the order semaphore on behalf of a call are made
  by its work items.
\<close>

definition releases_count_for :: "'a state \<Rightarrow> nat \<Rightarrow> event \<Rightarrow> bool" where
  "releases_count_for s i e =
     (case e of CountRelease t \<Rightarrow> t < length (task_queue s) \<and> owner (task_queue s ! t) = i
      | _ \<Rightarrow> False)"

definition signals_for :: "'a state \<Rightarrow> nat \<Rightarrow> event \<Rightarrow> bool" where
  "signals_for s i e =
     (case e of CbSignal t \<Rightarrow> t < length (task_queue s) \<and> owner (task_queue s ! t) = i
      | _ \<Rightarrow> False)"

definition acquires_count :: "event \<Rightarrow> bool" where
  "acquires_count e = (case e of CountAcquire _ \<Rightarrow> True | _ \<Rightarrow> False)"

definition releases_count :: "event \<Rightarrow> bool" where
  "releases_count e = (case e of CountRelease _ \<Rightarrow> True | _ \<Rightarrow> False)"

definition acquires_order :: "event \<Rightarrow> bool" where
  "acquires_order e = (case e of OrderAcquire _ \<Rightarrow> True | _ \<Rightarrow> False)"

definition releases_order :: "event \<Rightarrow> bool" where
  "releases_order e = (case e of CbSignal _ \<Rightarrow> True | _ \<Rightarrow> False)"

definition acquires_lane :: "event \<Rightarrow> bool" where
  "acquires_lane e = (case e of LaneAcquire _ \<Rightarrow> True | _ \<Rightarrow> False)"

definition releases_lane :: "event \<Rightarrow> bool" where
  "releases_lane e = (case e of LaneRelease _ \<Rightarrow> True | _ \<Rightarrow> False)"

definition semaphore_totals :: "event list \<Rightarrow> 'a state \<Rightarrow> bool" where
  "semaphore_totals tr s \<longleftrightarrow>
     processing_count_semaphore s + length (filter acquires_count tr)
       = 2 + length (filter releases_count tr) \<and>
     processing_order_semaphore s + length (filter acquires_order tr)
       = 1 + length (filter releases_order tr) \<and>
     lane_process_semaphore s + length (filter acquires_lane tr)
       = 1 + length (filter releases_lane tr)"

definition own_acquires :: "event list \<Rightarrow> 'a state \<Rightarrow> bool" where
  "own_acquires tr s \<longleftrightarrow>
     (\<forall>i < length (invocations s).
        int (length (filter (\<lambda>e. e = CountAcquire i) tr))
          = units (\<lambda>w. owner w = i) (task_queue s)
            + (if holding_count (invocations s ! i) then 1 else 0) \<and>
        int (length (filter (\<lambda>e. e = OrderAcquire i) tr))
          = units (\<lambda>w. owner w = i) (task_queue s)
            + (if holding_order (invocations s ! i) then 1 else 0) \<and>
        length (filter (\<lambda>e. e = LaneAcquire i) tr)
          = (if pc (invocations s ! i) = AtLaneAcquire then 0 else 1) \<and>
        length (filter (\<lambda>e. e = LaneRelease i) tr)
          = (if past_pulling (invocations s ! i) then 1 else 0))"

definition own_releases :: "event list \<Rightarrow> 'a state \<Rightarrow> bool" where
  "own_releases tr s \<longleftrightarrow>
     (\<forall>i. int (length (filter (releases_count_for s i) tr))
            = units (\<lambda>w. owner w = i \<and> phase w = Finished) (task_queue s) \<and>
          int (length (filter (signals_for s i) tr))
            = units (\<lambda>w. owner w = i \<and> signaled w) (task_queue s))"

subsection \<open>Labels\<close>

text \<open>
  \<open>erase\<close> forgets the labels and the log. \<open>actor\<close> is the call that executes an event
  (none for the events of work items).
\<close>

definition untag :: "'a invocation \<Rightarrow> 'a invocation" where
  "untag p = p\<lparr>log_tag := []\<rparr>"

definition erase :: "'a state \<Rightarrow> 'a state" where
  "erase s = s\<lparr>invocations := map untag (invocations s), debug_log := []\<rparr>"

fun actor :: "event \<Rightarrow> nat option" where
  "actor (LaneAcquire i) = Some i"
| "actor (LaneRead i) = Some i"
| "actor (CountAcquire i) = Some i"
| "actor (CurAcquire i) = Some i"
| "actor (OrderAcquire i) = Some i"
| "actor (Emplace i) = Some i"
| "actor (LaneRelease i) = Some i"
| "actor (DrainAcquire i) = Some i"
| "actor (ProcessReturn i) = Some i"
| "actor _ = None"

subsection \<open>Progress\<close>

text \<open>
  The statements a call on an empty lane has still to execute, from each control point.
\<close>

fun remaining :: "nat \<Rightarrow> 'a position \<Rightarrow> event list" where
  "remaining i AtLaneAcquire =
     [LaneAcquire i, LaneRead i, LaneRelease i, DrainAcquire i, DrainAcquire i, ProcessReturn i]"
| "remaining i AtRead =
     [LaneRead i, LaneRelease i, DrainAcquire i, DrainAcquire i, ProcessReturn i]"
| "remaining i AtLaneRelease = [LaneRelease i, DrainAcquire i, DrainAcquire i, ProcessReturn i]"
| "remaining i (AtDrain k) = replicate (2 - k) (DrainAcquire i) @ [ProcessReturn i]"
| "remaining i _ = []"

text \<open>
  An upper bound on the number of steps a state can still take: every event lowers it.
\<close>

fun phase_rank :: "phase \<Rightarrow> bool \<Rightarrow> int" where
  "phase_rank Queued b = 5"
| "phase_rank InCallback b = (if b then 3 else 4)"
| "phase_rank AtCurRelease b = 2"
| "phase_rank AtCountRelease b = 1"
| "phase_rank Finished b = 0"
| "phase_rank Aborted b = 0"

definition item_rank :: "'a work_item \<Rightarrow> int" where
  "item_rank w = phase_rank (phase w) (signaled w)"

fun position_rank :: "'a position \<Rightarrow> nat \<Rightarrow> int" where
  "position_rank AtLaneAcquire n = 6 + 10 * int n"
| "position_rank AtRead n = 5 + 10 * int n"
| "position_rank (AtCountAcquire x) n = 14 + 10 * int n"
| "position_rank (AtCurAcquire x) n = 13 + 10 * int n"
| "position_rank (AtOrderAcquire x) n = 12 + 10 * int n"
| "position_rank (AtEmplace x) n = 11 + 10 * int n"
| "position_rank AtLaneRelease n = 4"
| "position_rank (AtDrain k) n = 1 + int (2 - k)"
| "position_rank Returned n = 0"

definition call_rank :: "'a invocation \<Rightarrow> int" where
  "call_rank p = position_rank (pc p) (length (data_lane p))"

definition steps_left :: "'a state \<Rightarrow> int" where
  "steps_left s = sum_list (map call_rank (invocations s)) + sum_list (map item_rank (task_queue s))"

subsection \<open>Example runs\<close>

text \<open>
  One call over three chunks, up to the moment when the callbacks of chunks 0 and 1 are
  both in execution.
\<close>

definition overlap_run :: "event list" where
  "overlap_run =
     [LaneAcquire 0, LaneRead 0, CountAcquire 0, CurAcquire 0, OrderAcquire 0, Emplace 0,
      CbStart 0, CbSignal 0,
      LaneRead 0, CountAcquire 0, CurAcquire 0, OrderAcquire 0, Emplace 0, CbStart 1]"

text \<open>
  A complete run of one call over the chunks 10, 20, 30 in which each callback signals at
  once and the callbacks of consecutive chunks overlap, and the state it ends in when the
  label is empty.
\<close>

definition three_chunk_run :: "event list" where
  "three_chunk_run =
     [LaneAcquire 0,
      LaneRead 0, CountAcquire 0, CurAcquire 0, OrderAcquire 0, Emplace 0, CbStart 0, CbSignal 0,
      LaneRead 0, CountAcquire 0, CurAcquire 0, OrderAcquire 0, Emplace 0, CbStart 1, CbSignal 1,
      CbReturn 0, CurRelease 0, CountRelease 0,
      LaneRead 0, CountAcquire 0, CurAcquire 0, OrderAcquire 0, Emplace 0, CbStart 2, CbSignal 2,
      CbReturn 1, CbReturn 2, CurRelease 1, CurRelease 2, CountRelease 1, CountRelease 2,
      LaneRead 0, LaneRelease 0, DrainAcquire 0, DrainAcquire 0, ProcessReturn 0]"

definition finished_items :: "nat work_item list" where
  "finished_items =
     [\<lparr>owner = 0, item_index = 0, item_data = 10, phase = Finished, signaled = True\<rparr>,
      \<lparr>owner = 0, item_index = 1, item_data = 20, phase = Finished, signaled = True\<rparr>,
      \<lparr>owner = 0, item_index = 2, item_data = 30, phase = Finished, signaled = True\<rparr>]"

definition three_chunk_final :: "nat state" where
  "three_chunk_final =
     \<lparr>processing_count_semaphore = 2, processing_order_semaphore = 1,
      lane_process_semaphore = 1,
      invocations =
        [\<lparr>data_lane = [], log_tag = [], currently_processing_semaphore = 0,
          chunk_index = 3, pc = Returned\<rparr>],
      task_queue = finished_items,
      calls = [(0, 0, 10), (0, 1, 20), (0, 2, 30)],
      debug_log = []\<rparr>"

text \<open>
  Two calls, A over 10, 20, 30 and B over 40, 50. A passes the lane semaphore first; the
  callback of its chunk 1 is slow, chunks 0 and 2 finish; then B queues its chunk 0.
\<close>

definition two_streams :: "(nat list \<times> string) list" where
  "two_streams = [([10, 20, 30], []), ([40, 50], [])]"

definition a1_slow_run :: "event list" where
  "a1_slow_run =
     [LaneAcquire 0,
      LaneRead 0, CountAcquire 0, CurAcquire 0, OrderAcquire 0, Emplace 0, CbStart 0, CbSignal 0,
      LaneRead 0, CountAcquire 0, CurAcquire 0, OrderAcquire 0, Emplace 0, CbStart 1, CbSignal 1,
      CbReturn 0, CurRelease 0, CountRelease 0,
      LaneRead 0, CountAcquire 0, CurAcquire 0, OrderAcquire 0, Emplace 0, CbStart 2, CbSignal 2,
      CbReturn 2, CurRelease 2, CountRelease 2,
      LaneRead 0, LaneRelease 0,
      LaneAcquire 1,
      LaneRead 1, CountAcquire 1, CurAcquire 1, OrderAcquire 1, Emplace 1]"

text \<open>
  One call over one chunk: the callback signals and returns, the work item releases the
  local semaphore of the call, and the call runs to its return before the work item
  executes its last statement.
\<close>

definition one_chunk_run :: "event list" where
  "one_chunk_run =
     [LaneAcquire 0,
      LaneRead 0, CountAcquire 0, CurAcquire 0, OrderAcquire 0, Emplace 0, CbStart 0, CbSignal 0,
      CbReturn 0, CurRelease 0,
      LaneRead 0, LaneRelease 0, DrainAcquire 0, DrainAcquire 0, ProcessReturn 0]"

text \<open>
  One call over one chunk whose callback signals and then raises.
\<close>

definition raise_run :: "event list" where
  "raise_run =
     [LaneAcquire 0,
      LaneRead 0, CountAcquire 0, CurAcquire 0, OrderAcquire 0, Emplace 0, CbStart 0, CbSignal 0,
      CbRaise 0, LaneRead 0, LaneRelease 0, DrainAcquire 0]"

section \<open>Lemmas\<close>

subsection \<open>Steps, case by case\<close>

lemmas step_defs = coordinator_def worker_def lane_acquire_def lane_read_def lane_release_def
  count_acquire_def cur_acquire_def order_acquire_def emplace_def drain_acquire_def
  process_return_def cb_start_def cb_signal_def cb_return_def cb_raise_def cur_release_def
  count_release_def acquire_def release_def put_inv_def put_item_def

lemmas step_splits = position.splits option.splits if_splits list.splits

lemma debug_fields [simp]:
  "processing_count_semaphore (debug tag l s) = processing_count_semaphore s"
  "processing_order_semaphore (debug tag l s) = processing_order_semaphore s"
  "lane_process_semaphore (debug tag l s) = lane_process_semaphore s"
  "invocations (debug tag l s) = invocations s"
  "task_queue (debug tag l s) = task_queue s"
  "calls (debug tag l s) = calls s"
  by (simp_all add: debug_def)

text \<open>
  One rule for all case analyses on a step: which event it was, what it required of the
  state, and the state it produced.
\<close>

lemma fire_cases [consumes 1, case_names LaneAcquire ReadEnd ReadChunk CountAcquire CurAcquire
    OrderAcquire Emplace LaneRelease DrainAcquire ProcessReturn CbStart CbSignal CbReturn CbRaise
    CurRelease CountRelease]:
  assumes "fire e s = Some s'"
  obtains
    (LaneAcquire) i c where "e = LaneAcquire i" "i < length (invocations s)"
      "pc (invocations s ! i) = AtLaneAcquire" "lane_process_semaphore s = Suc c"
      "s' = s\<lparr>lane_process_semaphore := c,
               invocations := (invocations s)[i := (invocations s ! i)\<lparr>chunk_index := 0, pc := AtRead\<rparr>]\<rparr>"
  | (ReadEnd) i where "e = LaneRead i" "i < length (invocations s)"
      "pc (invocations s ! i) = AtRead" "data_lane (invocations s ! i) = []"
      "s' = s\<lparr>invocations := (invocations s)[i := (invocations s ! i)\<lparr>pc := AtLaneRelease\<rparr>]\<rparr>"
  | (ReadChunk) i x xs l where "e = LaneRead i" "i < length (invocations s)"
      "pc (invocations s ! i) = AtRead" "data_lane (invocations s ! i) = x # xs"
      "s' = (debug (log_tag (invocations s ! i)) l s)
              \<lparr>invocations := (invocations s)[i := (invocations s ! i)\<lparr>data_lane := xs, pc := AtCountAcquire x\<rparr>]\<rparr>"
  | (CountAcquire) i x c where "e = CountAcquire i" "i < length (invocations s)"
      "pc (invocations s ! i) = AtCountAcquire x" "processing_count_semaphore s = Suc c"
      "s' = s\<lparr>processing_count_semaphore := c,
               invocations := (invocations s)[i := (invocations s ! i)\<lparr>pc := AtCurAcquire x\<rparr>]\<rparr>"
  | (CurAcquire) i x c where "e = CurAcquire i" "i < length (invocations s)"
      "pc (invocations s ! i) = AtCurAcquire x"
      "currently_processing_semaphore (invocations s ! i) = Suc c"
      "s' = s\<lparr>invocations := (invocations s)[i := (invocations s ! i)
               \<lparr>currently_processing_semaphore := c, pc := AtOrderAcquire x\<rparr>]\<rparr>"
  | (OrderAcquire) i x c where "e = OrderAcquire i" "i < length (invocations s)"
      "pc (invocations s ! i) = AtOrderAcquire x" "processing_order_semaphore s = Suc c"
      "s' = s\<lparr>processing_order_semaphore := c,
               invocations := (invocations s)[i := (invocations s ! i)\<lparr>pc := AtEmplace x\<rparr>]\<rparr>"
  | (Emplace) i x where "e = Emplace i" "i < length (invocations s)"
      "pc (invocations s ! i) = AtEmplace x"
      "s' = s\<lparr>task_queue := task_queue s @
                 [\<lparr>owner = i, item_index = chunk_index (invocations s ! i), item_data = x,
                   phase = Queued, signaled = False\<rparr>],
               invocations := (invocations s)[i := (invocations s ! i)
                 \<lparr>chunk_index := Suc (chunk_index (invocations s ! i)), pc := AtRead\<rparr>]\<rparr>"
  | (LaneRelease) i l where "e = LaneRelease i" "i < length (invocations s)"
      "pc (invocations s ! i) = AtLaneRelease"
      "s' = (debug (log_tag (invocations s ! i)) l
               (s\<lparr>lane_process_semaphore := Suc (lane_process_semaphore s)\<rparr>))
              \<lparr>invocations := (invocations s)[i := (invocations s ! i)\<lparr>pc := AtDrain 0\<rparr>]\<rparr>"
  | (DrainAcquire) i k c where "e = DrainAcquire i" "i < length (invocations s)"
      "pc (invocations s ! i) = AtDrain k" "k < 2"
      "currently_processing_semaphore (invocations s ! i) = Suc c"
      "s' = s\<lparr>invocations := (invocations s)[i := (invocations s ! i)
               \<lparr>currently_processing_semaphore := c, pc := AtDrain (Suc k)\<rparr>]\<rparr>"
  | (ProcessReturn) i k l where "e = ProcessReturn i" "i < length (invocations s)"
      "pc (invocations s ! i) = AtDrain k" "\<not> k < 2"
      "s' = (debug (log_tag (invocations s ! i)) l s)
              \<lparr>invocations := (invocations s)[i := (invocations s ! i)\<lparr>pc := Returned\<rparr>]\<rparr>"
  | (CbStart) t where "e = CbStart t" "t < length (task_queue s)"
      "phase (task_queue s ! t) = Queued"
      "s' = s\<lparr>calls := calls s @ [(owner (task_queue s ! t), item_index (task_queue s ! t),
                                     item_data (task_queue s ! t))],
               task_queue := (task_queue s)[t := (task_queue s ! t)\<lparr>phase := InCallback\<rparr>]\<rparr>"
  | (CbSignal) t where "e = CbSignal t" "t < length (task_queue s)"
      "phase (task_queue s ! t) = InCallback" "\<not> signaled (task_queue s ! t)"
      "s' = s\<lparr>processing_order_semaphore := Suc (processing_order_semaphore s),
               task_queue := (task_queue s)[t := (task_queue s ! t)\<lparr>signaled := True\<rparr>]\<rparr>"
  | (CbReturn) t where "e = CbReturn t" "t < length (task_queue s)"
      "phase (task_queue s ! t) = InCallback"
      "s' = s\<lparr>task_queue := (task_queue s)[t := (task_queue s ! t)\<lparr>phase := AtCurRelease\<rparr>]\<rparr>"
  | (CbRaise) t where "e = CbRaise t" "t < length (task_queue s)"
      "phase (task_queue s ! t) = InCallback"
      "s' = s\<lparr>task_queue := (task_queue s)[t := (task_queue s ! t)\<lparr>phase := Aborted\<rparr>]\<rparr>"
  | (CurRelease) t where "e = CurRelease t" "t < length (task_queue s)"
      "phase (task_queue s ! t) = AtCurRelease"
      "owner (task_queue s ! t) < length (invocations s)"
      "s' = s\<lparr>invocations := (invocations s)[owner (task_queue s ! t) :=
                 (invocations s ! owner (task_queue s ! t))
                   \<lparr>currently_processing_semaphore :=
                      Suc (currently_processing_semaphore (invocations s ! owner (task_queue s ! t)))\<rparr>],
               task_queue := (task_queue s)[t := (task_queue s ! t)\<lparr>phase := AtCountRelease\<rparr>]\<rparr>"
  | (CountRelease) t where "e = CountRelease t" "t < length (task_queue s)"
      "phase (task_queue s ! t) = AtCountRelease"
      "s' = s\<lparr>processing_count_semaphore := Suc (processing_count_semaphore s),
               task_queue := (task_queue s)[t := (task_queue s ! t)\<lparr>phase := Finished\<rparr>]\<rparr>"
proof (cases e)
  case (LaneAcquire i) with assms that(1) show ?thesis
    by (auto simp: step_defs split: step_splits elim: nat.exhaust dest!: gr0_implies_Suc)
next
  case (LaneRead i) with assms that(2,3) show ?thesis
    by (auto simp: step_defs debug_def split: step_splits)
next
  case (CountAcquire i) with assms that(4) show ?thesis
    by (auto simp: step_defs split: step_splits dest!: gr0_implies_Suc)
next
  case (CurAcquire i) with assms that(5) show ?thesis
    by (auto simp: step_defs split: step_splits dest!: gr0_implies_Suc)
next
  case (OrderAcquire i) with assms that(6) show ?thesis
    by (auto simp: step_defs split: step_splits dest!: gr0_implies_Suc)
next
  case (Emplace i) with assms that(7) show ?thesis
    by (auto simp: step_defs split: step_splits)
next
  case (LaneRelease i) with assms that(8) show ?thesis
    by (auto simp: step_defs debug_def split: step_splits)
next
  case (DrainAcquire i) with assms that(9) show ?thesis
    by (auto simp: step_defs split: step_splits dest!: gr0_implies_Suc)
next
  case (ProcessReturn i) with assms that(10) show ?thesis
    by (auto simp: step_defs debug_def split: step_splits)
next
  case (CbStart t) with assms that(11) show ?thesis
    by (auto simp: step_defs split: step_splits)
next
  case (CbSignal t) with assms that(12) show ?thesis
    by (auto simp: step_defs split: step_splits)
next
  case (CbReturn t) with assms that(13) show ?thesis
    by (auto simp: step_defs split: step_splits)
next
  case (CbRaise t) with assms that(14) show ?thesis
    by (auto simp: step_defs split: step_splits)
next
  case (CurRelease t) with assms that(15) show ?thesis
    by (auto simp: step_defs split: step_splits)
next
  case (CountRelease t) with assms that(16) show ?thesis
    by (auto simp: step_defs split: step_splits)
qed

subsection \<open>Semaphore ledgers\<close>

lemma units_Nil [simp]: "units P [] = 0"
  by (simp add: units_def)

lemma units_append [simp]: "units P (xs @ ys) = units P xs + units P ys"
  by (simp add: units_def)

lemma units_Cons [simp]: "units P (x # xs) = (if P x then 1 else 0) + units P xs"
  by (simp add: units_def)

lemma units_update [simp]:
  assumes "i < length xs"
  shows "units P (xs[i := y]) = units P xs + (if P y then 1 else 0) - (if P (xs ! i) then 1 else 0)"
  using assms by (induction xs arbitrary: i) (auto split: nat.splits)

lemma units_filter: "units P xs = int (length (filter P xs))"
  by (induction xs) auto

lemma units_nonneg: "0 \<le> units P xs"
  by (simp add: units_filter)

lemma units_member:
  assumes "i < length xs" "P (xs ! i)"
  shows "1 \<le> units P xs"
proof -
  from assms have "xs ! i \<in> set (filter P xs)" by simp
  then have "0 < length (filter P xs)" by (metis length_pos_if_in_set)
  then have "Suc 0 \<le> length (filter P xs)" by (rule Suc_leI)
  then show ?thesis by (simp add: units_filter)
qed

lemma filter_length_mono:
  assumes "\<And>x. P x \<Longrightarrow> Q x"
  shows "length (filter P xs) \<le> length (filter Q xs)"
  using assms by (induction xs) auto

lemma units_map_const [simp]: "(\<And>x. \<not> P (f x)) \<Longrightarrow> units P (map f xs) = 0"
  by (induction xs) auto

lemma count_ok_step:
  assumes "fire e s = Some s'" "count_ok s"
  shows "count_ok s'"
  using assms
  by (cases rule: fire_cases) (simp_all add: count_ok_def holding_count_def unfinished_def)

lemma order_ok_step:
  assumes "fire e s = Some s'" "order_ok s"
  shows "order_ok s'"
  using assms
  by (cases rule: fire_cases) (simp_all add: order_ok_def holding_order_def unsignaled_def)

lemma lane_ok_step:
  assumes "fire e s = Some s'" "lane_ok s"
  shows "lane_ok s'"
  using assms
  by (cases rule: fire_cases) (simp_all add: lane_ok_def pulling_def)

lemma length_invocations_step:
  assumes "fire e s = Some s'"
  shows "length (invocations s') = length (invocations s)"
  using assms by (cases rule: fire_cases) simp_all

lemma cur_ok_step:
  assumes "fire e s = Some s'" "cur_ok s"
  shows "cur_ok s'"
proof -
  have "int (currently_processing_semaphore (invocations s' ! j)) + cur_taken (invocations s' ! j)
      + units (cur_pending j) (task_queue s') = 2"
    if j: "j < length (invocations s)" for j
  proof -
    from assms(2) j
    have "int (currently_processing_semaphore (invocations s ! j)) + cur_taken (invocations s ! j)
      + units (cur_pending j) (task_queue s) = 2"
      by (simp add: cur_ok_def)
    with assms(1) j units_nonneg[of "cur_pending j" "task_queue s"] show ?thesis
      by (cases rule: fire_cases) (auto simp: nth_list_update cur_taken_def cur_pending_def)
  qed
  then show ?thesis by (simp add: cur_ok_def length_invocations_step[OF assms(1)])
qed

subsection \<open>Lanes, work items and callback invocations\<close>

lemma lane_pos_simps [simp]:
  "lane_pos xs AtLaneAcquire n d \<longleftrightarrow> d = xs \<and> n = 0"
  "lane_pos xs AtRead n d \<longleftrightarrow> n \<le> length xs \<and> d = drop n xs"
  "lane_pos xs (AtCountAcquire x) n d \<longleftrightarrow> in_hand xs n d x"
  "lane_pos xs (AtCurAcquire x) n d \<longleftrightarrow> in_hand xs n d x"
  "lane_pos xs (AtOrderAcquire x) n d \<longleftrightarrow> in_hand xs n d x"
  "lane_pos xs (AtEmplace x) n d \<longleftrightarrow> in_hand xs n d x"
  "lane_pos xs AtLaneRelease n d \<longleftrightarrow> n = length xs \<and> d = []"
  "lane_pos xs (AtDrain k) n d \<longleftrightarrow> n = length xs \<and> d = []"
  "lane_pos xs Returned n d \<longleftrightarrow> n = length xs \<and> d = []"
  by (simp_all add: lane_pos_def)

lemma drop_eq_ConsD:
  assumes "drop n xs = y # ys"
  shows "n < length xs \<and> y = xs ! n \<and> ys = drop (Suc n) xs"
proof -
  have n: "n < length xs" using assms by (cases "n < length xs") auto
  from Cons_nth_drop_Suc[OF n] assms show ?thesis using n by simp
qed

lemma lanes_ok_step:
  assumes "fire e s = Some s'" "lanes_ok ps s"
  shows "lanes_ok ps s'"
proof -
  have len: "length (invocations s) = length ps" using assms(2) by (simp add: lanes_ok_def)
  have "lane_ok_at (ps ! j) (invocations s' ! j)"
    if j: "j < length ps" for j
  proof -
    from assms(2) j have IH: "lane_ok_at (ps ! j) (invocations s ! j)"
      by (simp_all add: lanes_ok_def)
    with assms(1) j len show ?thesis
      by (cases rule: fire_cases)
        (auto simp: nth_list_update lane_ok_at_def in_hand_def dest: drop_eq_ConsD[OF sym])
  qed
  then show ?thesis using len by (simp add: lanes_ok_def length_invocations_step[OF assms(1)])
qed

lemma map_args_update [simp]:
  "t < length ws \<Longrightarrow> args w = args (ws ! t) \<Longrightarrow> map args (ws[t := w]) = map args ws"
  by (simp add: map_update list_update_same_conv)

lemma args_update [simp]:
  "args (w\<lparr>phase := ph\<rparr>) = args w" "args (w\<lparr>signaled := b\<rparr>) = args w"
  by (simp_all add: args_def)

lemma items_ok_step:
  assumes "fire e s = Some s'" "items_ok ps s" "lanes_ok ps s"
  shows "items_ok ps s'"
proof -
  have len: "length (invocations s) = length ps" using assms(3) by (simp add: lanes_ok_def)
  have "filter (\<lambda>a. fst a = j) (map args (task_queue s')) =
        (if j < length ps then map (\<lambda>k. (j, k, fst (ps ! j) ! k)) [0..<chunk_index (invocations s' ! j)]
         else [])" for j
  proof -
    from assms(2) have IH: "filter (\<lambda>a. fst a = j) (map args (task_queue s)) =
        (if j < length ps then map (\<lambda>k. (j, k, fst (ps ! j) ! k)) [0..<chunk_index (invocations s ! j)]
         else [])"
      by (simp add: items_ok_def)
    have lp: "j < length ps \<Longrightarrow> lane_ok_at (ps ! j) (invocations s ! j)"
      using assms(3) by (simp add: lanes_ok_def)
    from assms(1) IH len lp show ?thesis
      by (cases rule: fire_cases)
        (auto simp: nth_list_update lane_ok_at_def in_hand_def args_def)
  qed
  then show ?thesis by (simp add: items_ok_def)
qed

lemma all_signaled_at_emplace:
  assumes "order_ok s" "i < length (invocations s)" "pc (invocations s ! i) = AtEmplace x"
    "t < length (task_queue s)"
  shows "signaled (task_queue s ! t)"
proof (rule ccontr)
  assume "\<not> signaled (task_queue s ! t)"
  with assms(4) have "1 \<le> units unsignaled (task_queue s)"
    by (intro units_member[of t]) (simp_all add: unsignaled_def)
  moreover from assms(2,3) have "1 \<le> units holding_order (invocations s)"
    by (intro units_member[of i]) (simp_all add: holding_order_def)
  ultimately show False using assms(1) by (simp add: order_ok_def)
qed

lemma length_task_queue_step:
  assumes "fire e s = Some s'"
  shows "length (task_queue s) \<le> length (task_queue s')"
  using assms by (cases rule: fire_cases) simp_all

lemma tail_ok_step:
  assumes "fire e s = Some s'" "tail_ok s" "order_ok s"
  shows "tail_ok s'"
proof -
  have A: "signaled (task_queue s' ! t)" if "Suc t < length (task_queue s')" for t
  proof -
    from assms(2) have "Suc t < length (task_queue s) \<Longrightarrow> signaled (task_queue s ! t)"
      by (simp add: tail_ok_def)
    with assms(1) that all_signaled_at_emplace[OF assms(3), of _ _ t] show ?thesis
      by (cases rule: fire_cases) (auto simp: nth_list_update nth_append)
  qed
  have B: "started (task_queue s' ! t)"
    if "t < length (task_queue s')" "signaled (task_queue s' ! t)" for t
  proof -
    from assms(2)
    have "t < length (task_queue s) \<Longrightarrow> signaled (task_queue s ! t) \<Longrightarrow> started (task_queue s ! t)"
      by (simp add: tail_ok_def)
    with assms(1) that show ?thesis
      by (cases rule: fire_cases) (auto simp: nth_list_update nth_append started_def split: if_splits)
  qed
  have C: "owner (task_queue s' ! t) < length (invocations s')"
    if "t < length (task_queue s')" for t
  proof -
    from assms(2)
    have "t < length (task_queue s) \<Longrightarrow> owner (task_queue s ! t) < length (invocations s)"
      by (simp add: tail_ok_def)
    with assms(1) that show ?thesis
      by (cases rule: fire_cases) (auto simp: nth_list_update nth_append split: if_splits)
  qed
  from A B C show ?thesis by (simp add: tail_ok_def)
qed

lemma queued_is_last:
  assumes "tail_ok s" "t < length (task_queue s)" "phase (task_queue s ! t) = Queued"
  shows "Suc t = length (task_queue s)"
proof (rule ccontr)
  assume "Suc t \<noteq> length (task_queue s)"
  with assms(2) have "Suc t < length (task_queue s)" by simp
  with assms(1,2) have "started (task_queue s ! t)" by (simp add: tail_ok_def)
  with assms(3) show False by (simp add: started_def)
qed

lemma map_filter_update:
  assumes "t < length ws" "P w = P (ws ! t)" "f w = f (ws ! t)"
  shows "map f (filter P (ws[t := w])) = map f (filter P ws)"
  using assms by (induction ws arbitrary: t) (auto split: nat.splits)

lemma calls_ok_step:
  assumes "fire e s = Some s'" "calls_ok s" "tail_ok s"
  shows "calls_ok s'"
  using assms(1)
proof (cases rule: fire_cases)
  case (CbStart t)
  define ys where "ys = take t (task_queue s)"
  define w where "w = task_queue s ! t"
  from queued_is_last[OF assms(3) CbStart(2,3)]
  have last: "Suc t = length (task_queue s)" .
  have ts: "task_queue s = ys @ [w]"
    using take_Suc_conv_app_nth[OF CbStart(2)] last by (simp add: ys_def w_def)
  have t: "t = length ys" using CbStart(2) by (simp add: ys_def)
  have w: "phase w = Queued" using CbStart(3) by (simp add: w_def)
  have "calls s' = calls s @ [args w]"
    using CbStart(4) by (simp add: args_def w_def)
  moreover have "task_queue s' = ys @ [w\<lparr>phase := InCallback\<rparr>]"
    using CbStart(4) by (simp add: ts t w_def[symmetric])
  ultimately show ?thesis using assms(2) w
    by (simp add: calls_ok_def started_def ts)
qed (use assms(2) in \<open>simp_all add: calls_ok_def started_def map_filter_update\<close>)

subsection \<open>Executions\<close>

lemma exec_append:
  "exec (xs @ ys) s = (case exec xs s of None \<Rightarrow> None | Some s' \<Rightarrow> exec ys s')"
  by (induction xs arbitrary: s) (auto split: option.splits)

lemma exec_snoc:
  "exec (tr @ [e]) s0 = Some s' \<longleftrightarrow> (\<exists>s. exec tr s0 = Some s \<and> fire e s = Some s')"
  by (auto simp: exec_append split: option.splits)

lemma invariant_init: "invariant ps (init ps)"
  by (simp add: invariant_def init_def count_ok_def order_ok_def lane_ok_def cur_ok_def
      lanes_ok_def items_ok_def tail_ok_def calls_ok_def comp_def new_invocation_def
      holding_count_def holding_order_def pulling_def cur_taken_def lane_ok_at_def)

lemma invariant_step:
  assumes "fire e s = Some s'" "invariant ps s"
  shows "invariant ps s'"
  using assms
  by (simp add: invariant_def count_ok_step order_ok_step lane_ok_step cur_ok_step
      lanes_ok_step items_ok_step tail_ok_step calls_ok_step)

lemma invariant_exec:
  assumes "exec tr (init ps) = Some s"
  shows "invariant ps s"
  using assms
proof (induction tr arbitrary: s rule: rev_induct)
  case Nil
  then show ?case using invariant_init[of ps] by auto
next
  case (snoc e tr)
  then obtain s1 where "exec tr (init ps) = Some s1" "fire e s1 = Some s"
    by (auto simp: exec_snoc)
  with snoc.IH show ?case by (blast intro: invariant_step)
qed

text \<open>
  No counter ever exceeds the maximum of its semaphore: \<^verbatim>\<open>release\<close> is never called on a
  semaphore that is full, so that adding one unit is all a release does.
\<close>

lemma semaphores_within_capacity:
  assumes "exec tr (init ps) = Some s"
  shows "processing_count_semaphore s \<le> 2 \<and> processing_order_semaphore s \<le> 1 \<and>
    lane_process_semaphore s \<le> 1 \<and>
    (\<forall>i < length (invocations s). currently_processing_semaphore (invocations s ! i) \<le> 2)"
proof -
  from invariant_exec[OF assms]
  have l: "count_ok s" "order_ok s" "lane_ok s" "cur_ok s" by (simp_all add: invariant_def)
  have "currently_processing_semaphore (invocations s ! i) \<le> 2"
    if i: "i < length (invocations s)" for i
  proof -
    have "0 \<le> cur_taken (invocations s ! i)"
      by (cases "pc (invocations s ! i)") (simp_all add: cur_taken_def)
    with l(4)[unfolded cur_ok_def, rule_format, OF i]
      units_nonneg[of "cur_pending i" "task_queue s"]
    show ?thesis by simp
  qed
  moreover from l(1) have "processing_count_semaphore s \<le> 2"
    using units_nonneg[of holding_count "invocations s"] units_nonneg[of unfinished "task_queue s"]
    by (simp add: count_ok_def)
  moreover from l(2) have "processing_order_semaphore s \<le> 1"
    using units_nonneg[of holding_order "invocations s"] units_nonneg[of unsignaled "task_queue s"]
    by (simp add: order_ok_def)
  moreover from l(3) have "lane_process_semaphore s \<le> 1"
    using units_nonneg[of pulling "invocations s"] by (simp add: lane_ok_def)
  ultimately show ?thesis by simp
qed

lemma hist_init: "hist [] (init ps)"
  by (simp add: hist_def init_def new_invocation_def)

lemma hist_step:
  assumes "fire e s = Some s'" "hist tr s"
  shows "hist (tr @ [e]) s'"
proof -
  have 1: "CbStart t \<in> set (tr @ [e]) \<longleftrightarrow> t < length (task_queue s') \<and> started (task_queue s' ! t)" for t
  proof -
    from assms(2) have "CbStart t \<in> set tr \<longleftrightarrow> t < length (task_queue s) \<and> started (task_queue s ! t)"
      by (simp add: hist_def)
    with assms(1) show ?thesis
      by (cases rule: fire_cases) (auto simp: nth_list_update nth_append started_def)
  qed
  have 2: "CbSignal t \<in> set (tr @ [e]) \<longleftrightarrow> t < length (task_queue s') \<and> signaled (task_queue s' ! t)" for t
  proof -
    from assms(2) have "CbSignal t \<in> set tr \<longleftrightarrow> t < length (task_queue s) \<and> signaled (task_queue s ! t)"
      by (simp add: hist_def)
    with assms(1) show ?thesis
      by (cases rule: fire_cases) (auto simp: nth_list_update nth_append)
  qed
  have 3: "CbReturn t \<in> set (tr @ [e]) \<longleftrightarrow> t < length (task_queue s') \<and> returned_cb (phase (task_queue s' ! t))" for t
  proof -
    from assms(2) have "CbReturn t \<in> set tr \<longleftrightarrow> t < length (task_queue s) \<and> returned_cb (phase (task_queue s ! t))"
      by (simp add: hist_def)
    with assms(1) show ?thesis
      by (cases rule: fire_cases) (auto simp: nth_list_update nth_append returned_cb_def)
  qed
  have 4: "CbRaise t \<in> set (tr @ [e]) \<longleftrightarrow> t < length (task_queue s') \<and> phase (task_queue s' ! t) = Aborted" for t
  proof -
    from assms(2) have "CbRaise t \<in> set tr \<longleftrightarrow> t < length (task_queue s) \<and> phase (task_queue s ! t) = Aborted"
      by (simp add: hist_def)
    with assms(1) show ?thesis
      by (cases rule: fire_cases) (auto simp: nth_list_update nth_append)
  qed
  have 5: "CurRelease t \<in> set (tr @ [e]) \<longleftrightarrow> t < length (task_queue s') \<and> released_cur (phase (task_queue s' ! t))" for t
  proof -
    from assms(2) have "CurRelease t \<in> set tr \<longleftrightarrow> t < length (task_queue s) \<and> released_cur (phase (task_queue s ! t))"
      by (simp add: hist_def)
    with assms(1) show ?thesis
      by (cases rule: fire_cases) (auto simp: nth_list_update nth_append released_cur_def)
  qed
  have 6: "CountRelease t \<in> set (tr @ [e]) \<longleftrightarrow> t < length (task_queue s') \<and> phase (task_queue s' ! t) = Finished" for t
  proof -
    from assms(2) have "CountRelease t \<in> set tr \<longleftrightarrow> t < length (task_queue s) \<and> phase (task_queue s ! t) = Finished"
      by (simp add: hist_def)
    with assms(1) show ?thesis
      by (cases rule: fire_cases) (auto simp: nth_list_update nth_append)
  qed
  have 7: "LaneAcquire i \<in> set (tr @ [e]) \<longleftrightarrow> i < length (invocations s') \<and> pc (invocations s' ! i) \<noteq> AtLaneAcquire" for i
  proof -
    from assms(2) have "LaneAcquire i \<in> set tr \<longleftrightarrow> i < length (invocations s) \<and> pc (invocations s ! i) \<noteq> AtLaneAcquire"
      by (simp add: hist_def)
    with assms(1) show ?thesis
      by (cases rule: fire_cases) (auto simp: nth_list_update nth_append)
  qed
  have 8: "ProcessReturn i \<in> set (tr @ [e]) \<longleftrightarrow> i < length (invocations s') \<and> pc (invocations s' ! i) = Returned" for i
  proof -
    from assms(2) have "ProcessReturn i \<in> set tr \<longleftrightarrow> i < length (invocations s) \<and> pc (invocations s ! i) = Returned"
      by (simp add: hist_def)
    with assms(1) show ?thesis
      by (cases rule: fire_cases) (auto simp: nth_list_update nth_append)
  qed
  from 1 2 3 4 5 6 7 8 show ?thesis unfolding hist_def by blast
qed

lemma hist_exec:
  assumes "exec tr (init ps) = Some s"
  shows "hist tr s"
  using assms
proof (induction tr arbitrary: s rule: rev_induct)
  case Nil
  then show ?case using hist_init[of ps] by auto
next
  case (snoc e tr)
  then obtain s1 where "exec tr (init ps) = Some s1" "fire e s1 = Some s"
    by (auto simp: exec_snoc)
  with snoc.IH show ?case by (blast intro: hist_step)
qed

subsection \<open>Work items along a run\<close>

lemma args_step:
  assumes "fire e s = Some s'" "t < length (task_queue s)"
  shows "t < length (task_queue s') \<and> args (task_queue s' ! t) = args (task_queue s ! t)"
  using assms
  by (cases rule: fire_cases) (auto simp: nth_list_update nth_append args_def)

lemma args_exec:
  assumes "exec tr s1 = Some s" "t < length (task_queue s1)"
  shows "t < length (task_queue s) \<and> args (task_queue s ! t) = args (task_queue s1 ! t)"
  using assms
proof (induction tr arbitrary: s1)
  case Nil
  then show ?case by simp
next
  case (Cons e tr)
  then obtain s2 where s2: "fire e s1 = Some s2" "exec tr s2 = Some s"
    by (auto split: option.splits)
  from args_step[OF s2(1) Cons.prems(2)] Cons.IH[OF s2(2)] show ?case by simp
qed

lemma exec_split:
  assumes "exec tr s0 = Some s" "p < length tr"
  shows "\<exists>s1 s2. exec (take p tr) s0 = Some s1 \<and> fire (tr ! p) s1 = Some s2
    \<and> exec (drop (Suc p) tr) s2 = Some s"
proof -
  have "tr = take p tr @ (tr ! p # drop (Suc p) tr)"
    using assms(2) by (simp add: id_take_nth_drop[symmetric])
  then have "exec (take p tr @ (tr ! p # drop (Suc p) tr)) s0 = Some s"
    using assms(1) by simp
  then show ?thesis
    by (auto simp: exec_append split: option.splits)
qed

lemma item_lookup:
  assumes "items_ok ps s" "t < length (task_queue s)"
  shows "owner (task_queue s ! t) < length ps \<and>
    item_index (task_queue s ! t) < chunk_index (invocations s ! owner (task_queue s ! t)) \<and>
    item_data (task_queue s ! t) = fst (ps ! owner (task_queue s ! t)) ! item_index (task_queue s ! t)"
proof -
  let ?w = "task_queue s ! t"
  let ?a = "owner ?w"
  have "args ?w \<in> set (filter (\<lambda>c. fst c = ?a) (map args (task_queue s)))"
    using assms(2) by (simp add: args_def)
  with assms(1) have "args ?w \<in> set (if ?a < length ps
      then map (\<lambda>k. (?a, k, fst (ps ! ?a) ! k)) [0..<chunk_index (invocations s ! ?a)] else [])"
    by (simp add: items_ok_def)
  then show ?thesis by (auto simp: args_def split: if_splits)
qed

lemma item_exists:
  assumes "items_ok ps s" "a < length ps" "k < chunk_index (invocations s ! a)"
  shows "\<exists>t < length (task_queue s). args (task_queue s ! t) = (a, k, fst (ps ! a) ! k)"
proof -
  from assms(2,3)
  have "(a, k, fst (ps ! a) ! k) \<in> set (if a < length ps
      then map (\<lambda>k. (a, k, fst (ps ! a) ! k)) [0..<chunk_index (invocations s ! a)] else [])"
    by simp
  with assms(1) have "(a, k, fst (ps ! a) ! k) \<in> set (filter (\<lambda>c. fst c = a) (map args (task_queue s)))"
    by (simp add: items_ok_def)
  then have "(a, k, fst (ps ! a) ! k) \<in> set (map args (task_queue s))" by simp
  then show ?thesis by (auto simp: in_set_conv_nth)
qed

lemma units_zero:
  assumes "units P xs = 0" "x \<in> set xs"
  shows "\<not> P x"
proof -
  from assms(1) have "filter P xs = []" by (simp add: units_filter)
  with assms(2) show ?thesis by (simp add: filter_empty_conv)
qed

lemma enumerate_upt: "enumerate 0 xs = map (\<lambda>k. (k, xs ! k)) [0..<length xs]"
  by (rule nth_equalityI) (simp_all add: nth_enumerate_eq)

lemma chunk_index_le:
  assumes "lanes_ok ps s" "i < length ps"
  shows "chunk_index (invocations s ! i) \<le> length (fst (ps ! i))"
proof -
  from assms have "lane_pos (fst (ps ! i)) (pc (invocations s ! i))
      (chunk_index (invocations s ! i)) (data_lane (invocations s ! i))"
    by (simp add: lanes_ok_def lane_ok_at_def)
  then show ?thesis
    by (cases "pc (invocations s ! i)") (simp_all add: in_hand_def)
qed

lemma items_of_args:
  assumes "items_ok ps s" "lanes_ok ps s" "i < length ps"
  shows "map (\<lambda>w. (item_index w, item_data w)) (items_of i s)
    = take (chunk_index (invocations s ! i)) (enumerate 0 (fst (ps ! i)))"
proof -
  let ?xs = "fst (ps ! i)" and ?n = "chunk_index (invocations s ! i)"
  note n = chunk_index_le[OF assms(2,3)]
  have "filter (\<lambda>c. fst c = i) (map args (task_queue s)) = map (\<lambda>k. (i, k, ?xs ! k)) [0..<?n]"
    using assms(1)[unfolded items_ok_def, rule_format, of i] assms(3) by simp
  then have "map snd (filter (\<lambda>c. fst c = i) (map args (task_queue s)))
      = map (\<lambda>k. (k, ?xs ! k)) [0..<?n]"
    by (simp add: comp_def)
  moreover have "map snd (filter (\<lambda>c. fst c = i) (map args (task_queue s)))
      = map (\<lambda>w. (item_index w, item_data w)) (items_of i s)"
    by (simp add: items_of_def filter_map comp_def args_def)
  moreover have "take ?n (enumerate 0 ?xs) = map (\<lambda>k. (k, ?xs ! k)) [0..<?n]"
    using n by (simp add: enumerate_upt take_map)
  ultimately show ?thesis by simp
qed

lemma started_prefix:
  assumes "tail_ok s"
  shows "prefix (filter started (task_queue s)) (task_queue s)"
proof (cases "task_queue s" rule: rev_cases)
  case Nil
  then show ?thesis by simp
next
  case (snoc ys w)
  have "started y" if "y \<in> set ys" for y
  proof -
    from that obtain t where t: "t < length ys" "ys ! t = y" by (auto simp: in_set_conv_nth)
    with snoc have "Suc t < length (task_queue s)" "task_queue s ! t = y"
      by (simp_all add: nth_append)
    with assms show ?thesis by (auto simp: tail_ok_def)
  qed
  then have "filter started ys = ys" by (simp add: filter_id_conv)
  with snoc show ?thesis by simp
qed

lemma calls_of_prefix:
  assumes "calls_ok s" "tail_ok s"
  shows "prefix (calls_of i s) (map (\<lambda>w. (item_index w, item_data w)) (items_of i s))"
proof -
  have "calls_of i s = map (\<lambda>w. (item_index w, item_data w))
      (filter (\<lambda>w. owner w = i) (filter started (task_queue s)))"
    using assms(1) by (simp add: calls_of_def calls_ok_def filter_map comp_def args_def)
  moreover have "prefix (filter (\<lambda>w. owner w = i) (filter started (task_queue s))) (items_of i s)"
    unfolding items_of_def by (intro filter_mono_prefix started_prefix assms(2))
  ultimately show ?thesis by (simp add: map_mono_prefix)
qed

lemma returned_items:
  assumes "cur_ok s" "i < length (invocations s)" "pc (invocations s ! i) = Returned"
    "w \<in> set (task_queue s)" "owner w = i"
  shows "released_cur (phase w)"
proof -
  from assms(1,2,3) units_nonneg[of "cur_pending i" "task_queue s"]
  have "units (cur_pending i) (task_queue s) = 0"
    by (auto simp: cur_ok_def cur_taken_def)
  from units_zero[OF this assms(4)] assms(5) show ?thesis
    by (cases "phase w") (simp_all add: cur_pending_def released_cur_def)
qed

lemma calls_of_returned:
  assumes "cur_ok s" "calls_ok s" "i < length (invocations s)" "pc (invocations s ! i) = Returned"
  shows "calls_of i s = map (\<lambda>w. (item_index w, item_data w)) (items_of i s)"
proof -
  have "started w" if "w \<in> set (items_of i s)" for w
  proof -
    from that have "released_cur (phase w)"
      using returned_items[OF assms(1,3,4), of w] by (simp add: items_of_def)
    then show ?thesis by (auto simp: started_def released_cur_def)
  qed
  then have "filter started (items_of i s) = items_of i s"
    by (simp add: filter_id_conv)
  then have "filter (\<lambda>w. owner w = i) (filter started (task_queue s)) = items_of i s"
    by (simp add: items_of_def conj_commute)
  with assms(2) show ?thesis
    by (simp add: calls_of_def calls_ok_def filter_map comp_def args_def)
qed

subsection \<open>The order in which calls pass the lane semaphore\<close>

lemma past_pulling_step:
  assumes "fire e s = Some s'" "a < length (invocations s)" "past_pulling (invocations s ! a)"
  shows "past_pulling (invocations s' ! a)"
  using assms
  by (cases rule: fire_cases) (auto simp: nth_list_update past_pulling_def)

lemma nobody_pulling:
  assumes "lane_ok s" "0 < lane_process_semaphore s" "a < length (invocations s)"
  shows "\<not> pulling (invocations s ! a)"
proof
  assume "pulling (invocations s ! a)"
  with assms(3) have "1 \<le> units pulling (invocations s)" by (intro units_member[of a])
  with assms(1,2) show False by (simp add: lane_ok_def)
qed

lemma admission_order_step:
  assumes step: "fire e s = Some s'" and IH: "admission_order tr s" and h: "hist tr s" and l: "lane_ok s"
  shows "admission_order (tr @ [e]) s'"
  unfolding admission_order_def
proof (intro allI impI)
  fix a b
  assume b: "LaneAcquire b \<in> set (tr @ [e])"
    and a: "LaneAcquire a \<in> set (takeWhile (\<lambda>e. e \<noteq> LaneAcquire b) (tr @ [e]))"
  note len = length_invocations_step[OF step]
  show "a < length (invocations s') \<and> past_pulling (invocations s' ! a)"
  proof (cases "LaneAcquire b \<in> set tr")
    case True
    then have "takeWhile (\<lambda>e. e \<noteq> LaneAcquire b) (tr @ [e]) = takeWhile (\<lambda>e. e \<noteq> LaneAcquire b) tr"
      by (intro takeWhile_append1[of "LaneAcquire b"]) simp_all
    with a IH True have "a < length (invocations s)" "past_pulling (invocations s ! a)"
      by (simp_all add: admission_order_def)
    with past_pulling_step[OF step] len show ?thesis by simp
  next
    case False
    with b have e: "e = LaneAcquire b" by simp
    from False have "takeWhile (\<lambda>e. e \<noteq> LaneAcquire b) (tr @ [e]) = tr"
      using e by (subst takeWhile_append2) auto
    with a have atr: "LaneAcquire a \<in> set tr" by simp
    with False have ab: "a \<noteq> b" by auto
    from h atr have a1: "a < length (invocations s)" "pc (invocations s ! a) \<noteq> AtLaneAcquire"
      by (simp_all add: hist_def)
    from step e have sem: "0 < lane_process_semaphore s" and s': "invocations s' ! a = invocations s ! a"
      using ab by (cases rule: fire_cases, simp_all)+
    from nobody_pulling[OF l sem a1(1)] a1(2) have "past_pulling (invocations s ! a)"
      by (cases "pc (invocations s ! a)") (simp_all add: pulling_def past_pulling_def)
    with s' a1(1) len show ?thesis by simp
  qed
qed

lemma admission_order_exec:
  assumes "exec tr (init ps) = Some s"
  shows "admission_order tr s"
  using assms
proof (induction tr arbitrary: s rule: rev_induct)
  case Nil
  then show ?case by (simp add: admission_order_def)
next
  case (snoc e tr)
  then obtain s1 where s1: "exec tr (init ps) = Some s1" "fire e s1 = Some s"
    by (auto simp: exec_snoc)
  from invariant_exec[OF s1(1)] have "lane_ok s1" by (simp add: invariant_def)
  from admission_order_step[OF s1(2) snoc.IH[OF s1(1)] hist_exec[OF s1(1)] this] show ?case .
qed

lemma units_split: "units (\<lambda>x. P x \<and> Q x) xs + units (\<lambda>x. \<not> P x \<and> Q x) xs = units Q xs"
  by (induction xs) auto

lemma pulled_all:
  assumes "lanes_ok ps s" "items_ok ps s" "a < length ps" "past_pulling (invocations s ! a)"
  shows "data_lane (invocations s ! a) = [] \<and>
    map (\<lambda>w. (item_index w, item_data w)) (items_of a s) = enumerate 0 (fst (ps ! a))"
proof -
  from assms(1,3) have "lane_pos (fst (ps ! a)) (pc (invocations s ! a))
      (chunk_index (invocations s ! a)) (data_lane (invocations s ! a))"
    by (simp add: lanes_ok_def lane_ok_at_def)
  with assms(4) have "chunk_index (invocations s ! a) = length (fst (ps ! a))"
    "data_lane (invocations s ! a) = []"
    by (cases "pc (invocations s ! a)"; simp add: past_pulling_def)+
  with items_of_args[OF assms(2,1,3)] show ?thesis by simp
qed

lemma cross_stream:
  assumes run: "exec (tr @ [CbStart t]) (init ps) = Some s"
    and ab: "owner (task_queue s ! t) \<noteq> a"
  shows "outstanding a s \<le> 1"
    and "LaneAcquire a \<in> set (takeWhile (\<lambda>e. e \<noteq> LaneAcquire (owner (task_queue s ! t))) tr)
      \<Longrightarrow> a < length ps \<and> past_pulling (invocations s ! a)"
proof -
  let ?b = "owner (task_queue s ! t)"
  from run obtain s1 where s1: "exec tr (init ps) = Some s1" "fire (CbStart t) s1 = Some s"
    by (auto simp: exec_snoc)
  from s1(2) have t: "t < length (task_queue s)" "phase (task_queue s ! t) = InCallback"
    by (cases rule: fire_cases, simp_all)+
  from invariant_exec[OF run]
  have inv: "count_ok s" "lanes_ok ps s" "items_ok ps s" by (simp_all add: invariant_def)
  from t ab have "1 \<le> units (\<lambda>w. \<not> owner w = a \<and> unfinished w) (task_queue s)"
    by (intro units_member[of t]) (simp_all add: unfinished_def)
  moreover from inv(1) have "units unfinished (task_queue s) \<le> 2"
    using units_nonneg[of holding_count "invocations s"] by (simp add: count_ok_def)
  ultimately have "units (\<lambda>w. owner w = a \<and> unfinished w) (task_queue s) \<le> 1"
    using units_split[of "\<lambda>w. owner w = a" unfinished "task_queue s"] by simp
  then show "outstanding a s \<le> 1" by (simp add: outstanding_def units_filter)
  assume first: "LaneAcquire a \<in> set (takeWhile (\<lambda>e. e \<noteq> LaneAcquire ?b) tr)"
  from item_lookup[OF inv(3) t(1)]
  have b: "?b < length ps" "0 < chunk_index (invocations s ! ?b)" by simp_all
  from inv(2) b(1) have "lane_pos (fst (ps ! ?b)) (pc (invocations s ! ?b))
      (chunk_index (invocations s ! ?b)) (data_lane (invocations s ! ?b))"
    and len: "length (invocations s) = length ps"
    by (simp_all add: lanes_ok_def lane_ok_at_def)
  with b(2) have "pc (invocations s ! ?b) \<noteq> AtLaneAcquire" by auto
  with hist_exec[OF run] b(1) len have "LaneAcquire ?b \<in> set (tr @ [CbStart t])"
    by (simp add: hist_def)
  then have btr: "LaneAcquire ?b \<in> set tr" by simp
  then have "takeWhile (\<lambda>e. e \<noteq> LaneAcquire ?b) (tr @ [CbStart t])
      = takeWhile (\<lambda>e. e \<noteq> LaneAcquire ?b) tr"
    by (intro takeWhile_append1[of "LaneAcquire ?b"]) simp_all
  with admission_order_exec[OF run] btr first len
  show "a < length ps \<and> past_pulling (invocations s ! a)"
    by (simp add: admission_order_def)
qed

subsection \<open>Runs without labels\<close>

lemma untag_simps [simp]:
  "pc (untag p) = pc p" "data_lane (untag p) = data_lane p"
  "currently_processing_semaphore (untag p) = currently_processing_semaphore p"
  "chunk_index (untag p) = chunk_index p" "log_tag (untag p) = []"
  "untag (p\<lparr>pc := l\<rparr>) = (untag p)\<lparr>pc := l\<rparr>"
  "untag (p\<lparr>chunk_index := n\<rparr>) = (untag p)\<lparr>chunk_index := n\<rparr>"
  "untag (p\<lparr>data_lane := d\<rparr>) = (untag p)\<lparr>data_lane := d\<rparr>"
  "untag (p\<lparr>currently_processing_semaphore := c\<rparr>) = (untag p)\<lparr>currently_processing_semaphore := c\<rparr>"
  by (simp_all add: untag_def)

lemma erase_simps [simp]:
  "processing_count_semaphore (erase s) = processing_count_semaphore s"
  "processing_order_semaphore (erase s) = processing_order_semaphore s"
  "lane_process_semaphore (erase s) = lane_process_semaphore s"
  "invocations (erase s) = map untag (invocations s)"
  "task_queue (erase s) = task_queue s"
  "calls (erase s) = calls s"
  "debug_log (erase s) = []"
  "erase (s\<lparr>processing_count_semaphore := c\<rparr>) = (erase s)\<lparr>processing_count_semaphore := c\<rparr>"
  "erase (s\<lparr>processing_order_semaphore := c\<rparr>) = (erase s)\<lparr>processing_order_semaphore := c\<rparr>"
  "erase (s\<lparr>lane_process_semaphore := c\<rparr>) = (erase s)\<lparr>lane_process_semaphore := c\<rparr>"
  "erase (s\<lparr>task_queue := q\<rparr>) = (erase s)\<lparr>task_queue := q\<rparr>"
  "erase (s\<lparr>calls := cs\<rparr>) = (erase s)\<lparr>calls := cs\<rparr>"
  "erase (s\<lparr>invocations := ps\<rparr>) = (erase s)\<lparr>invocations := map untag ps\<rparr>"
  "erase (debug tag l s) = erase s"
  by (simp_all add: erase_def debug_def)

lemma debug_Nil [simp]: "debug [] l s = s"
  by (simp add: debug_def)

lemma erase_put [simp]:
  "erase (put_inv i p s) = put_inv i (untag p) (erase s)"
  "erase (put_item t w s) = put_item t w (erase s)"
  by (simp_all add: put_inv_def put_item_def map_update)

lemma coordinator_erase:
  assumes "\<And>p. f i (untag p) (erase s) = map_option erase (f i p s)"
  shows "coordinator f i (erase s) = map_option erase (coordinator f i s)"
  by (simp add: coordinator_def assms)

lemma worker_erase:
  assumes "\<And>w. f t w (erase s) = map_option erase (f t w s)"
  shows "worker f t (erase s) = map_option erase (worker f t s)"
  by (simp add: worker_def assms)

lemma fire_erase: "fire e (erase s) = map_option erase (fire e s)"
proof (cases e)
  case (LaneAcquire i)
  then show ?thesis
    by (simp, intro coordinator_erase)
      (simp add: lane_acquire_def acquire_def split: position.splits)
next
  case (LaneRead i)
  then show ?thesis
    by (simp, intro coordinator_erase)
      (simp add: lane_read_def split: position.splits list.splits)
next
  case (CountAcquire i)
  then show ?thesis
    by (simp, intro coordinator_erase)
      (simp add: count_acquire_def acquire_def split: position.splits)
next
  case (CurAcquire i)
  then show ?thesis
    by (simp, intro coordinator_erase)
      (simp add: cur_acquire_def acquire_def split: position.splits)
next
  case (OrderAcquire i)
  then show ?thesis
    by (simp, intro coordinator_erase)
      (simp add: order_acquire_def acquire_def split: position.splits)
next
  case (Emplace i)
  then show ?thesis
    by (simp, intro coordinator_erase)
      (simp add: emplace_def split: position.splits)
next
  case (LaneRelease i)
  then show ?thesis
    by (simp, intro coordinator_erase)
      (simp add: lane_release_def split: position.splits)
next
  case (DrainAcquire i)
  then show ?thesis
    by (simp, intro coordinator_erase)
      (simp add: drain_acquire_def acquire_def split: position.splits)
next
  case (ProcessReturn i)
  then show ?thesis
    by (simp, intro coordinator_erase)
      (simp add: process_return_def split: position.splits)
next
  case (CbStart t)
  then show ?thesis
    by (simp, intro worker_erase) (simp add: cb_start_def)
next
  case (CbSignal t)
  then show ?thesis
    by (simp, intro worker_erase) (simp add: cb_signal_def)
next
  case (CbReturn t)
  then show ?thesis
    by (simp, intro worker_erase) (simp add: cb_return_def)
next
  case (CbRaise t)
  then show ?thesis
    by (simp, intro worker_erase) (simp add: cb_raise_def)
next
  case (CurRelease t)
  then show ?thesis
    by (simp, intro worker_erase) (simp add: cur_release_def)
next
  case (CountRelease t)
  then show ?thesis
    by (simp, intro worker_erase) (simp add: count_release_def)
qed

lemma exec_erase: "exec tr (erase s) = map_option erase (exec tr s)"
proof (induction tr arbitrary: s)
  case Nil
  then show ?case by simp
next
  case (Cons e tr)
  then show ?case by (cases "fire e s") (simp_all add: fire_erase)
qed

lemma erase_init: "erase (init ps) = init (map (\<lambda>a. (fst a, [])) ps)"
  by (simp add: erase_def init_def untag_def new_invocation_def comp_def)

lemma silent_step:
  assumes "fire e s = Some s'" "\<And>i. actor e = Some i \<Longrightarrow> log_tag (invocations s ! i) = []"
  shows "debug_log s' = debug_log s"
  using assms
  by (cases rule: fire_cases) (simp_all add: debug_def)

lemma silent_exec:
  assumes "exec tr (init ps) = Some s"
    "\<And>e i. e \<in> set tr \<Longrightarrow> actor e = Some i \<Longrightarrow> snd (ps ! i) = []"
  shows "debug_log s = []"
  using assms
proof (induction tr arbitrary: s rule: rev_induct)
  case Nil
  then show ?case by (auto simp: init_def)
next
  case (snoc e tr)
  then obtain s1 where s1: "exec tr (init ps) = Some s1" "fire e s1 = Some s"
    by (auto simp: exec_snoc)
  have log: "debug_log s1 = []"
  proof (rule snoc.IH[OF s1(1)])
    fix e' i assume "e' \<in> set tr" "actor e' = Some i"
    then show "snd (ps ! i) = []" using snoc.prems(2)[of e' i] by simp
  qed
  from invariant_exec[OF s1(1)] have l: "lanes_ok ps s1" by (simp add: invariant_def)
  have "log_tag (invocations s1 ! i) = []" if "actor e = Some i" for i
  proof -
    from s1(2) that have "i < length (invocations s1)"
      by (cases rule: fire_cases) simp_all
    with l have "log_tag (invocations s1 ! i) = snd (ps ! i)"
      by (simp add: lanes_ok_def lane_ok_at_def)
    with snoc.prems(2)[of e i] that show ?thesis by simp
  qed
  from silent_step[OF s1(2) this] log show ?case by simp
qed

subsection \<open>Acquires and releases along a run\<close>

lemmas semaphore_event_defs = acquires_count_def releases_count_def acquires_order_def
  releases_order_def acquires_lane_def releases_lane_def

lemma semaphore_totals_step:
  assumes "fire e s = Some s'" "semaphore_totals tr s"
  shows "semaphore_totals (tr @ [e]) s'"
  using assms
  by (cases rule: fire_cases) (simp_all add: semaphore_totals_def semaphore_event_defs)

lemma semaphore_totals_exec:
  assumes "exec tr (init ps) = Some s"
  shows "semaphore_totals tr s"
  using assms
proof (induction tr arbitrary: s rule: rev_induct)
  case Nil
  then show ?case by (auto simp: semaphore_totals_def init_def)
next
  case (snoc e tr)
  then obtain s1 where "exec tr (init ps) = Some s1" "fire e s1 = Some s"
    by (auto simp: exec_snoc)
  with snoc.IH show ?case by (blast intro: semaphore_totals_step)
qed

lemma own_acquires_step:
  assumes "fire e s = Some s'" "own_acquires tr s"
  shows "own_acquires (tr @ [e]) s'"
proof -
  have "int (length (filter (\<lambda>e. e = CountAcquire j) (tr @ [e])))
          = units (\<lambda>w. owner w = j) (task_queue s')
            + (if holding_count (invocations s' ! j) then 1 else 0) \<and>
        int (length (filter (\<lambda>e. e = OrderAcquire j) (tr @ [e])))
          = units (\<lambda>w. owner w = j) (task_queue s')
            + (if holding_order (invocations s' ! j) then 1 else 0) \<and>
        length (filter (\<lambda>e. e = LaneAcquire j) (tr @ [e]))
          = (if pc (invocations s' ! j) = AtLaneAcquire then 0 else 1) \<and>
        length (filter (\<lambda>e. e = LaneRelease j) (tr @ [e]))
          = (if past_pulling (invocations s' ! j) then 1 else 0)"
    if j: "j < length (invocations s)" for j
  proof -
    from assms(2) j
    have "int (length (filter (\<lambda>e. e = CountAcquire j) tr))
          = units (\<lambda>w. owner w = j) (task_queue s)
            + (if holding_count (invocations s ! j) then 1 else 0)"
      "int (length (filter (\<lambda>e. e = OrderAcquire j) tr))
          = units (\<lambda>w. owner w = j) (task_queue s)
            + (if holding_order (invocations s ! j) then 1 else 0)"
      "length (filter (\<lambda>e. e = LaneAcquire j) tr)
          = (if pc (invocations s ! j) = AtLaneAcquire then 0 else 1)"
      "length (filter (\<lambda>e. e = LaneRelease j) tr)
          = (if past_pulling (invocations s ! j) then 1 else 0)"
      by (simp_all add: own_acquires_def)
    with assms(1) j show ?thesis
      by (cases rule: fire_cases)
        (auto simp: nth_list_update holding_count_def holding_order_def past_pulling_def)
  qed
  then show ?thesis by (simp add: own_acquires_def length_invocations_step[OF assms(1)])
qed

lemma own_acquires_exec:
  assumes "exec tr (init ps) = Some s"
  shows "own_acquires tr s"
  using assms
proof (induction tr arbitrary: s rule: rev_induct)
  case Nil
  then show ?case
    by (auto simp: own_acquires_def init_def new_invocation_def holding_count_def
        holding_order_def past_pulling_def)
next
  case (snoc e tr)
  then obtain s1 where "exec tr (init ps) = Some s1" "fire e s1 = Some s"
    by (auto simp: exec_snoc)
  with snoc.IH show ?case by (blast intro: own_acquires_step)
qed

lemma owner_step:
  assumes "fire e s = Some s'" "t < length (task_queue s)"
  shows "t < length (task_queue s') \<and> owner (task_queue s' ! t) = owner (task_queue s ! t)"
  using args_step[OF assms] by (simp add: args_def)

lemma releases_count_for_stable:
  assumes "fire e s = Some s'" "hist tr s" "e' \<in> set tr"
  shows "releases_count_for s' i e' = releases_count_for s i e'"
proof (cases e')
  case (CountRelease t)
  with assms(2,3) have "t < length (task_queue s)" by (simp add: hist_def)
  from owner_step[OF assms(1) this] this CountRelease show ?thesis
    by (simp add: releases_count_for_def)
qed (simp_all add: releases_count_for_def)

lemma signals_for_stable:
  assumes "fire e s = Some s'" "hist tr s" "e' \<in> set tr"
  shows "signals_for s' i e' = signals_for s i e'"
proof (cases e')
  case (CbSignal t)
  with assms(2,3) have "t < length (task_queue s)" by (simp add: hist_def)
  from owner_step[OF assms(1) this] this CbSignal show ?thesis
    by (simp add: signals_for_def)
qed (simp_all add: signals_for_def)

lemma own_releases_step:
  assumes step: "fire e s = Some s'" and IH: "own_releases tr s" and h: "hist tr s"
  shows "own_releases (tr @ [e]) s'"
proof -
  have "int (length (filter (releases_count_for s' i) (tr @ [e])))
            = units (\<lambda>w. owner w = i \<and> phase w = Finished) (task_queue s') \<and>
          int (length (filter (signals_for s' i) (tr @ [e])))
            = units (\<lambda>w. owner w = i \<and> signaled w) (task_queue s')" for i
  proof -
    have a: "filter (releases_count_for s' i) tr = filter (releases_count_for s i) tr"
      by (rule filter_cong[OF refl]) (rule releases_count_for_stable[OF step h])
    have b: "filter (signals_for s' i) tr = filter (signals_for s i) tr"
      by (rule filter_cong[OF refl]) (rule signals_for_stable[OF step h])
    from IH
    have c: "int (length (filter (releases_count_for s i) tr))
            = units (\<lambda>w. owner w = i \<and> phase w = Finished) (task_queue s)"
      "int (length (filter (signals_for s i) tr))
            = units (\<lambda>w. owner w = i \<and> signaled w) (task_queue s)"
      by (simp_all add: own_releases_def)
    from step show ?thesis
      by (cases rule: fire_cases)
        (use a b c in \<open>auto simp: releases_count_for_def signals_for_def\<close>)
  qed
  then show ?thesis by (simp add: own_releases_def)
qed

lemma own_releases_exec:
  assumes "exec tr (init ps) = Some s"
  shows "own_releases tr s"
  using assms
proof (induction tr arbitrary: s rule: rev_induct)
  case Nil
  then show ?case by (auto simp: own_releases_def init_def)
next
  case (snoc e tr)
  then obtain s1 where s1: "exec tr (init ps) = Some s1" "fire e s1 = Some s"
    by (auto simp: exec_snoc)
  from own_releases_step[OF s1(2) snoc.IH[OF s1(1)] hist_exec[OF s1(1)]] show ?case .
qed

lemma units_none:
  assumes "\<And>x. x \<in> set xs \<Longrightarrow> \<not> P x"
  shows "units P xs = 0"
  using assms by (induction xs) auto

lemma units_all:
  assumes "\<And>x. x \<in> set xs \<Longrightarrow> Q x \<Longrightarrow> P x"
  shows "units (\<lambda>x. Q x \<and> P x) xs = units Q xs"
  using assms by (induction xs) auto

lemma all_quiet_semaphores:
  assumes inv: "invariant ps s" and q: "\<And>j. j < length ps \<Longrightarrow> quiet j s"
  shows "processing_count_semaphore s = 2 \<and> processing_order_semaphore s = 1 \<and>
    lane_process_semaphore s = 1"
proof -
  from inv have l: "count_ok s" "order_ok s" "lane_ok s" "tail_ok s"
    and len: "length (invocations s) = length ps"
    by (simp_all add: invariant_def lanes_ok_def)
  have calls: "pc p = AtLaneAcquire \<or> pc p = Returned" if "p \<in> set (invocations s)" for p
    using that q len by (auto simp: in_set_conv_nth quiet_def)
  have items: "phase w = Finished \<and> signaled w" if "w \<in> set (task_queue s)" for w
  proof -
    from that obtain t where t: "t < length (task_queue s)" "task_queue s ! t = w"
      by (auto simp: in_set_conv_nth)
    with l(4) len have "owner w < length ps" by (auto simp: tail_ok_def)
    from q[OF this] that show ?thesis by (simp add: quiet_def items_of_def)
  qed
  have idle: "\<not> holding_count p \<and> \<not> holding_order p \<and> \<not> pulling p"
    if "p \<in> set (invocations s)" for p
    using calls[OF that] by (auto simp: holding_count_def holding_order_def pulling_def)
  have "units holding_count (invocations s) = 0" "units holding_order (invocations s) = 0"
    "units pulling (invocations s) = 0"
    using idle by (auto intro!: units_none)
  moreover have "units unfinished (task_queue s) = 0" "units unsignaled (task_queue s) = 0"
    using items by (auto intro!: units_none simp: unfinished_def unsignaled_def)
  ultimately show ?thesis using l(1,2,3)
    by (simp add: count_ok_def order_ok_def lane_ok_def)
qed

subsection \<open>A call on an empty lane\<close>

lemma queue_chunk_needs_chunk:
  assumes run: "exec tr (init ps) = Some s" and e: "e \<in> set tr"
    and kind: "e = CountAcquire i \<or> e = CurAcquire i \<or> e = OrderAcquire i \<or> e = Emplace i"
  shows "i < length ps \<and> fst (ps ! i) \<noteq> []"
proof -
  from e obtain p where p: "p < length tr" "tr ! p = e" by (auto simp: in_set_conv_nth)
  from exec_split[OF run p(1)] p(2) obtain s1 s2
    where s1: "exec (take p tr) (init ps) = Some s1" and s2: "fire e s1 = Some s2"
    by auto
  from invariant_exec[OF s1] have l: "lanes_ok ps s1" by (simp add: invariant_def)
  from s2 kind have "i < length (invocations s1) \<and>
      (\<exists>x. pc (invocations s1 ! i) \<in> {AtCountAcquire x, AtCurAcquire x, AtOrderAcquire x, AtEmplace x})"
    by (cases rule: fire_cases) auto
  with l show ?thesis
    by (auto simp: lanes_ok_def lane_ok_at_def in_hand_def)
qed

lemma empty_lane_state:
  assumes inv: "invariant ps s" and i: "i < length ps" "fst (ps ! i) = []"
  shows "items_of i s = []" "data_lane (invocations s ! i) = []"
    "int (currently_processing_semaphore (invocations s ! i)) + cur_taken (invocations s ! i) = 2"
    "i < length (invocations s)"
proof -
  from inv have l: "lanes_ok ps s" "items_ok ps s" "cur_ok s" by (simp_all add: invariant_def)
  from items_of_args[OF l(2,1) i(1)] i(2) show items: "items_of i s = []" by simp
  from l(1) i show len: "i < length (invocations s)" by (simp add: lanes_ok_def)
  from l(1) i have "lane_pos [] (pc (invocations s ! i)) (chunk_index (invocations s ! i))
      (data_lane (invocations s ! i))"
    by (auto simp: lanes_ok_def lane_ok_at_def)
  then show "data_lane (invocations s ! i) = []"
    by (cases "pc (invocations s ! i)") (simp_all add: in_hand_def)
  have "units (cur_pending i) (task_queue s) = 0"
    using items by (intro units_none) (auto simp: cur_pending_def items_of_def filter_empty_conv)
  with l(3)[unfolded cur_ok_def, rule_format, OF len]
  show "int (currently_processing_semaphore (invocations s ! i)) + cur_taken (invocations s ! i) = 2"
    by simp
qed

lemma empty_lane_finishes:
  assumes inv: "invariant ps s" and i: "i < length ps" "fst (ps ! i) = []"
    and free: "pc (invocations s ! i) \<noteq> AtLaneAcquire \<or> 0 < lane_process_semaphore s"
  shows "\<exists>s'. exec (remaining i (pc (invocations s ! i))) s = Some s' \<and>
    pc (invocations s' ! i) = Returned \<and>
    processing_count_semaphore s' = processing_count_semaphore s \<and>
    processing_order_semaphore s' = processing_order_semaphore s \<and>
    lane_process_semaphore s'
      = lane_process_semaphore s + (if pulling (invocations s ! i) then 1 else 0) \<and>
    task_queue s' = task_queue s"
proof -
  note st = empty_lane_state[OF inv i]
  from inv i have l: "lane_pos [] (pc (invocations s ! i)) (chunk_index (invocations s ! i))
      (data_lane (invocations s ! i))"
    by (auto simp: invariant_def lanes_ok_def lane_ok_at_def)
  show ?thesis
  proof (cases "pc (invocations s ! i)")
    case AtLaneAcquire
    with st free show ?thesis
      by (simp add: step_defs cur_taken_def pulling_def)
  next
    case AtRead
    with st show ?thesis
      by (simp add: step_defs cur_taken_def pulling_def)
  next
    case AtLaneRelease
    with st show ?thesis
      by (simp add: step_defs cur_taken_def pulling_def)
  next
    case (AtDrain k)
    with st(3) have "k = 0 \<or> k = 1 \<or> k = 2" by (auto simp: cur_taken_def)
    with AtDrain st show ?thesis
      by (auto simp: step_defs cur_taken_def pulling_def numeral_2_eq_2)
  next
    case Returned
    then show ?thesis by (simp add: pulling_def)
  qed (use l in \<open>simp_all add: in_hand_def\<close>)
qed

subsection \<open>Termination and progress\<close>

lemma sum_list_update_int:
  fixes f :: "'a \<Rightarrow> int"
  assumes "i < length xs"
  shows "sum_list (map f (xs[i := y])) = sum_list (map f xs) + f y - f (xs ! i)"
  using assms by (induction xs arbitrary: i) (auto split: nat.splits)

lemma steps_left_step:
  assumes "fire e s = Some s'"
  shows "steps_left s' < steps_left s"
  using assms
  by (cases rule: fire_cases)
    (auto simp: steps_left_def sum_list_update_int call_rank_def item_rank_def)

lemma steps_left_nonneg: "0 \<le> steps_left s"
proof -
  have "0 \<le> call_rank p" for p :: "'a invocation"
    by (cases "pc p") (simp_all add: call_rank_def)
  moreover have "0 \<le> item_rank w" for w :: "'a work_item"
    by (cases "phase w") (simp_all add: item_rank_def)
  ultimately show ?thesis
    unfolding steps_left_def by (intro add_nonneg_nonneg sum_list_nonneg) auto
qed

lemma steps_left_exec:
  assumes "exec tr s0 = Some s"
  shows "steps_left s + int (length tr) \<le> steps_left s0"
  using assms
proof (induction tr arbitrary: s0)
  case Nil
  then show ?case by simp
next
  case (Cons e tr)
  then obtain s1 where s1: "fire e s0 = Some s1" "exec tr s1 = Some s"
    by (auto split: option.splits)
  from Cons.IH[OF s1(2)] steps_left_step[OF s1(1)] show ?case by simp
qed

lemma steps_left_init:
  "steps_left (init ps) = int (sum_list (map (\<lambda>a. 6 + 10 * length (fst a)) ps))"
  by (induction ps) (simp_all add: steps_left_def init_def new_invocation_def call_rank_def)

lemma runs_are_bounded:
  assumes "exec tr (init ps) = Some s"
  shows "length tr \<le> sum_list (map (\<lambda>a. 6 + 10 * length (fst a)) ps)"
  using steps_left_exec[OF assms] steps_left_nonneg[of s] by (simp add: steps_left_init)

lemma units_two:
  assumes "i < length xs" "j < length xs" "i \<noteq> j" "P (xs ! i)" "P (xs ! j)"
  shows "2 \<le> units P xs"
  using assms
proof (induction xs arbitrary: i j)
  case Nil
  then show ?case by simp
next
  case (Cons x xs)
  show ?case
  proof (cases i)
    case 0
    with Cons.prems obtain j' where j': "j = Suc j'" by (cases j) auto
    with Cons.prems have "1 \<le> units P xs" by (intro units_member[of j']) simp_all
    with 0 Cons.prems show ?thesis by simp
  next
    case (Suc i')
    show ?thesis
    proof (cases j)
      case 0
      from Suc Cons.prems have "1 \<le> units P xs" by (intro units_member[of i']) simp_all
      with 0 Cons.prems show ?thesis by simp
    next
      case (Suc j')
      with \<open>i = Suc i'\<close> Cons.prems have "2 \<le> units P xs"
        by (intro Cons.IH[of i' j']) simp_all
      then show ?thesis by simp
    qed
  qed
qed

lemma only_puller:
  assumes "lane_ok s" "i < length (invocations s)" "pulling (invocations s ! i)"
    "j < length (invocations s)" "j \<noteq> i"
  shows "\<not> pulling (invocations s ! j)"
proof
  assume "pulling (invocations s ! j)"
  from units_two[OF assms(2,4) assms(5)[symmetric] assms(3) this] assms(1)
  show False by (simp add: lane_ok_def)
qed

lemma well_behaved_step:
  assumes "fire e s = Some s'" "well_behaved s"
    and "\<And>t. e \<noteq> CbRaise t" and "\<And>t. e = CbReturn t \<Longrightarrow> signaled (task_queue s ! t)"
  shows "well_behaved s'"
proof -
  have "phase (task_queue s' ! u) \<noteq> Aborted \<and>
        (returned_cb (phase (task_queue s' ! u)) \<longrightarrow> signaled (task_queue s' ! u))"
    if "u < length (task_queue s')" for u
  proof -
    from assms(2) have "u < length (task_queue s) \<Longrightarrow> phase (task_queue s ! u) \<noteq> Aborted \<and>
        (returned_cb (phase (task_queue s ! u)) \<longrightarrow> signaled (task_queue s ! u))"
      by (simp add: well_behaved_def)
    with assms(1,3,4) that show ?thesis
      by (cases rule: fire_cases)
        (auto simp: nth_list_update nth_append returned_cb_def split: if_splits)
  qed
  then show ?thesis by (simp add: well_behaved_def)
qed

lemma item_can_step:
  assumes inv: "invariant ps s" and wb: "well_behaved s"
    and t: "t < length (task_queue s)" "phase (task_queue s ! t) \<noteq> Finished"
  shows "\<exists>e s'. fire e s = Some s' \<and> well_behaved s'"
proof -
  let ?w = "task_queue s ! t"
  from wb t(1) have na: "phase ?w \<noteq> Aborted" by (simp add: well_behaved_def)
  from inv t(1) have own: "owner ?w < length (invocations s)"
    by (simp add: invariant_def tail_ok_def)
  have "\<exists>e. fire e s \<noteq> None \<and> (\<forall>u. e \<noteq> CbRaise u) \<and>
      (\<forall>u. e = CbReturn u \<longrightarrow> signaled (task_queue s ! u))"
  proof (cases "phase ?w")
    case Queued
    with t(1) have "fire (CbStart t) s \<noteq> None" by (simp add: step_defs)
    then show ?thesis by blast
  next
    case InCallback
    show ?thesis
    proof (cases "signaled ?w")
      case True
      with InCallback t(1) have "fire (CbReturn t) s \<noteq> None" by (simp add: step_defs)
      with True show ?thesis by blast
    next
      case False
      with InCallback t(1) have "fire (CbSignal t) s \<noteq> None" by (simp add: step_defs)
      then show ?thesis by blast
    qed
  next
    case AtCurRelease
    with t(1) own have "fire (CurRelease t) s \<noteq> None" by (simp add: step_defs)
    then show ?thesis by blast
  next
    case AtCountRelease
    with t(1) have "fire (CountRelease t) s \<noteq> None" by (simp add: step_defs)
    then show ?thesis by blast
  qed (use t(2) na in simp_all)
  then obtain e s' where "fire e s = Some s'" "\<And>u. e \<noteq> CbRaise u"
    "\<And>u. e = CbReturn u \<Longrightarrow> signaled (task_queue s ! u)"
    by auto
  with well_behaved_step[OF this(1) wb] show ?thesis by blast
qed

lemma call_can_step:
  assumes inv: "invariant ps s" and wb: "well_behaved s"
    and fin: "\<And>t. t < length (task_queue s) \<Longrightarrow> phase (task_queue s ! t) = Finished"
    and i: "i < length (invocations s)" "pc (invocations s ! i) \<noteq> Returned"
  shows "\<exists>e s'. fire e s = Some s' \<and> well_behaved s'"
proof -
  from inv have l: "count_ok s" "order_ok s" "lane_ok s" "cur_ok s"
    by (simp_all add: invariant_def)
  have fin': "phase w = Finished \<and> signaled w" if "w \<in> set (task_queue s)" for w
  proof -
    from that obtain t where t: "t < length (task_queue s)" "task_queue s ! t = w"
      by (auto simp: in_set_conv_nth)
    with fin[OF t(1)] wb show ?thesis by (auto simp: well_behaved_def returned_cb_def)
  qed
  have u0: "units unfinished (task_queue s) = 0" "units unsignaled (task_queue s) = 0"
    "units (cur_pending j) (task_queue s) = 0" for j
    using fin' by (auto intro!: units_none simp: unfinished_def unsignaled_def cur_pending_def)
  have cur: "int (currently_processing_semaphore (invocations s ! j)) + cur_taken (invocations s ! j) = 2"
    if "j < length (invocations s)" for j
    using l(4)[unfolded cur_ok_def, rule_format, OF that] u0(3)[of j] by simp
  have enabled: "\<exists>e. fire e s \<noteq> None \<and> (\<forall>u. e \<noteq> CbRaise u) \<and> (\<forall>u. e \<noteq> CbReturn u)"
    if j: "j < length (invocations s)" "pulling (invocations s ! j)" for j
  proof -
    have alone: "\<not> holding_count p \<and> \<not> holding_order p"
      if "p \<in> set (invocations s)" "p \<noteq> invocations s ! j" for p
    proof -
      from that obtain k where k: "k < length (invocations s)" "invocations s ! k = p"
        by (auto simp: in_set_conv_nth)
      with that(2) have "k \<noteq> j" by auto
      from only_puller[OF l(3) j k(1) this] k(2) show ?thesis
        by (auto simp: pulling_def holding_count_def holding_order_def split: position.splits)
    qed
    show ?thesis
    proof (cases "pc (invocations s ! j)")
      case AtRead
      with j(1) have "fire (LaneRead j) s \<noteq> None"
        by (simp add: step_defs split: list.splits)
      then show ?thesis by blast
    next
      case (AtCountAcquire x)
      have "units holding_count (invocations s) = 0"
      proof (rule units_none)
        fix p assume "p \<in> set (invocations s)"
        with alone[of p] AtCountAcquire show "\<not> holding_count p"
          by (cases "p = invocations s ! j") (auto simp: holding_count_def)
      qed
      with l(1) u0(1) have "0 < processing_count_semaphore s" by (simp add: count_ok_def)
      with AtCountAcquire j(1) have "fire (CountAcquire j) s \<noteq> None" by (simp add: step_defs)
      then show ?thesis by blast
    next
      case (AtCurAcquire x)
      with cur[OF j(1)] have "0 < currently_processing_semaphore (invocations s ! j)"
        by (simp add: cur_taken_def)
      with AtCurAcquire j(1) have "fire (CurAcquire j) s \<noteq> None" by (simp add: step_defs)
      then show ?thesis by blast
    next
      case (AtOrderAcquire x)
      have "units holding_order (invocations s) = 0"
      proof (rule units_none)
        fix p assume "p \<in> set (invocations s)"
        with alone[of p] AtOrderAcquire show "\<not> holding_order p"
          by (cases "p = invocations s ! j") (auto simp: holding_order_def)
      qed
      with l(2) u0(2) have "0 < processing_order_semaphore s" by (simp add: order_ok_def)
      with AtOrderAcquire j(1) have "fire (OrderAcquire j) s \<noteq> None" by (simp add: step_defs)
      then show ?thesis by blast
    next
      case (AtEmplace x)
      with j(1) have "fire (Emplace j) s \<noteq> None" by (simp add: step_defs)
      then show ?thesis by blast
    next
      case AtLaneRelease
      with j(1) have "fire (LaneRelease j) s \<noteq> None" by (simp add: step_defs)
      then show ?thesis by blast
    qed (use j(2) in \<open>simp_all add: pulling_def\<close>)
  qed
  have "\<exists>e. fire e s \<noteq> None \<and> (\<forall>u. e \<noteq> CbRaise u) \<and> (\<forall>u. e \<noteq> CbReturn u)"
  proof (cases "\<exists>j < length (invocations s). pulling (invocations s ! j)")
    case True
    with enabled show ?thesis by blast
  next
    case False
    then have "units pulling (invocations s) = 0"
      by (intro units_none) (auto simp: in_set_conv_nth)
    with l(3) have lane: "0 < lane_process_semaphore s" by (simp add: lane_ok_def)
    from False i(1) have np: "\<not> pulling (invocations s ! i)" by blast
    show ?thesis
    proof (cases "pc (invocations s ! i)")
      case AtLaneAcquire
      with lane i(1) have "fire (LaneAcquire i) s \<noteq> None" by (simp add: step_defs)
      then show ?thesis by blast
    next
      case (AtDrain k)
      show ?thesis
      proof (cases "k < 2")
        case True
        with cur[OF i(1)] AtDrain have "0 < currently_processing_semaphore (invocations s ! i)"
          by (simp add: cur_taken_def)
        with AtDrain True i(1) have "fire (DrainAcquire i) s \<noteq> None" by (simp add: step_defs)
        then show ?thesis by blast
      next
        case False
        with AtDrain i(1) have "fire (ProcessReturn i) s \<noteq> None" by (simp add: step_defs)
        then show ?thesis by blast
      qed
    qed (use np i(2) in \<open>simp_all add: pulling_def\<close>)
  qed
  then obtain e s' where "fire e s = Some s'" "\<And>u. e \<noteq> CbRaise u" "\<And>u. e \<noteq> CbReturn u"
    by auto
  with well_behaved_step[OF this(1) wb] show ?thesis by blast
qed

lemma no_deadlock:
  assumes run: "exec tr (init ps) = Some s" and wb: "well_behaved s" and nd: "\<not> all_done s"
  shows "\<exists>e s'. fire e s = Some s' \<and> well_behaved s'"
proof (cases "\<exists>t < length (task_queue s). phase (task_queue s ! t) \<noteq> Finished")
  case True
  with item_can_step[OF invariant_exec[OF run] wb] show ?thesis by blast
next
  case False
  with nd obtain i where "i < length (invocations s)" "pc (invocations s ! i) \<noteq> Returned"
    by (auto simp: all_done_def)
  with call_can_step[OF invariant_exec[OF run] wb] False show ?thesis by blast
qed

lemma every_run_completes:
  assumes run: "exec tr (init ps) = Some s" and wb: "well_behaved s"
  shows "\<exists>tr' s'. exec (tr @ tr') (init ps) = Some s' \<and> all_done s' \<and> well_behaved s'"
  using assms
proof (induction "nat (steps_left s)" arbitrary: tr s rule: less_induct)
  case less
  show ?case
  proof (cases "all_done s")
    case True
    with less.prems have "exec (tr @ []) (init ps) = Some s \<and> all_done s \<and> well_behaved s"
      by simp
    then show ?thesis by blast
  next
    case False
    from no_deadlock[OF less.prems False] obtain e s1
      where s1: "fire e s = Some s1" "well_behaved s1" by blast
    from less.prems(1) s1(1) have run1: "exec (tr @ [e]) (init ps) = Some s1"
      by (auto simp: exec_snoc)
    from steps_left_step[OF s1(1)] steps_left_nonneg[of s1]
    have "nat (steps_left s1) < nat (steps_left s)" by simp
    from less.hyps[OF this run1 s1(2)] obtain tr' s'
      where "exec ((tr @ [e]) @ tr') (init ps) = Some s'" "all_done s'" "well_behaved s'"
      by blast
    then have "exec (tr @ (e # tr')) (init ps) = Some s' \<and> all_done s' \<and> well_behaved s'"
      by simp
    then show ?thesis by blast
  qed
qed

subsection \<open>The example runs, evaluated\<close>

lemma a1_slow_run_state:
  "exec (a1_slow_run @ [CbStart 3]) (init two_streams) = Some
     \<lparr>processing_count_semaphore = 0, processing_order_semaphore = 0,
      lane_process_semaphore = 0,
      invocations =
        [\<lparr>data_lane = [], log_tag = [], currently_processing_semaphore = 1,
          chunk_index = 3, pc = AtDrain 0\<rparr>,
         \<lparr>data_lane = [50], log_tag = [], currently_processing_semaphore = 1,
          chunk_index = 1, pc = AtRead\<rparr>],
      task_queue =
        [\<lparr>owner = 0, item_index = 0, item_data = 10, phase = Finished, signaled = True\<rparr>,
         \<lparr>owner = 0, item_index = 1, item_data = 20, phase = InCallback, signaled = True\<rparr>,
         \<lparr>owner = 0, item_index = 2, item_data = 30, phase = Finished, signaled = True\<rparr>,
         \<lparr>owner = 1, item_index = 0, item_data = 40, phase = InCallback, signaled = False\<rparr>],
      calls = [(0, 0, 10), (0, 1, 20), (0, 2, 30), (1, 0, 40)],
      debug_log = []\<rparr>"
  by code_simp

lemma three_chunk_run_state:
  "exec three_chunk_run (init [([10, 20, 30], [])]) = Some three_chunk_final"
  by code_simp

lemma three_chunk_run_labelled:
  "exec three_chunk_run (init [([10, 20, 30], ''x'')]) = Some
     \<lparr>processing_count_semaphore = 2, processing_order_semaphore = 1,
      lane_process_semaphore = 1,
      invocations =
        [\<lparr>data_lane = [], log_tag = ''x'', currently_processing_semaphore = 0,
          chunk_index = 3, pc = Returned\<rparr>],
      task_queue = finished_items,
      calls = [(0, 0, 10), (0, 1, 20), (0, 2, 30)],
      debug_log =
        [''Queue x chunk 0.'' @ [CHR 0x0A], ''Queue x chunk 1.'' @ [CHR 0x0A],
         ''Queue x chunk 2.'' @ [CHR 0x0A], ''All x chunks queued.'' @ [CHR 0x0A],
         ''All x chunks processed.'' @ [CHR 0x0A]]\<rparr>"
  by code_simp

lemma one_chunk_run_state:
  "exec one_chunk_run (init [([10 :: nat], [])]) = Some
     \<lparr>processing_count_semaphore = 1, processing_order_semaphore = 1,
      lane_process_semaphore = 1,
      invocations =
        [\<lparr>data_lane = [], log_tag = [], currently_processing_semaphore = 0,
          chunk_index = 1, pc = Returned\<rparr>],
      task_queue =
        [\<lparr>owner = 0, item_index = 0, item_data = 10, phase = AtCountRelease, signaled = True\<rparr>],
      calls = [(0, 0, 10)], debug_log = []\<rparr>"
  by code_simp

lemma raise_run_state:
  "exec raise_run (init [([10 :: nat], [])]) = Some
     \<lparr>processing_count_semaphore = 1, processing_order_semaphore = 1,
      lane_process_semaphore = 1,
      invocations =
        [\<lparr>data_lane = [], log_tag = [], currently_processing_semaphore = 0,
          chunk_index = 1, pc = AtDrain 1\<rparr>],
      task_queue =
        [\<lparr>owner = 0, item_index = 0, item_data = 10, phase = Aborted, signaled = True\<rparr>],
      calls = [(0, 0, 10)], debug_log = []\<rparr>"
  by code_simp

section \<open>The claims\<close>

text \<open>
  Every theorem below speaks about \<open>exec tr (init ps) = Some s\<close>: any number of calls of
  \<^verbatim>\<open>Process\<close> on one instance, given by their lanes and labels \<open>ps\<close>, any schedule \<open>tr\<close>
  that the semaphores admit, and the state \<open>s\<close> it reaches. Every prefix of a schedule is a
  schedule, so what holds of every reachable state holds at every instant of every run.
\<close>

subsection \<open>Order of callbacks within one call\<close>

text \<open>
  Claim C1. Within one call of \<^verbatim>\<open>Process\<close>, the callback of chunk \<open>k + 1\<close> starts strictly
  after the callback of chunk \<open>k\<close> has released the order semaphore handed to it: when the
  event at place \<open>p\<close> of a schedule starts the work item with index \<open>k + 1\<close>, an earlier
  place \<open>q < p\<close> holds the signal of the work item of the same call with index \<open>k\<close>.
  The mechanism is stated by the other two conjuncts. The counter of the order semaphore,
  the calls between their acquire and \<^verbatim>\<open>Emplace\<close> and the work items whose callback has not
  signalled add up to 1. And a call has acquired the order semaphore once for each work
  item it has submitted, plus once when it stands before \<^verbatim>\<open>Emplace\<close>: every submission is
  preceded by an acquire of its own.
\<close>

theorem callbacks_start_after_signal:
  assumes run: "exec tr (init ps) = Some s"
    and p: "p < length tr" "tr ! p = CbStart t'"
    and k: "item_index (task_queue s ! t') = Suc k"
  shows "(\<exists>t q. q < p \<and> tr ! q = CbSignal t \<and> t < length (task_queue s) \<and>
      owner (task_queue s ! t) = owner (task_queue s ! t') \<and> item_index (task_queue s ! t) = k) \<and>
    processing_order_semaphore s + length (filter holding_order (invocations s))
      + length (filter unsignaled (task_queue s)) = 1 \<and>
    length (filter (\<lambda>e. e = OrderAcquire (owner (task_queue s ! t'))) tr)
      = length (items_of (owner (task_queue s ! t')) s)
        + (if holding_order (invocations s ! owner (task_queue s ! t')) then 1 else 0)"
proof -
  from exec_split[OF run p(1)] p(2) obtain s1 s2
    where s1: "exec (take p tr) (init ps) = Some s1"
      and s2: "fire (CbStart t') s1 = Some s2"
      and s: "exec (drop (Suc p) tr) s2 = Some s"
    by auto
  from s2 have t': "t' < length (task_queue s1)" "phase (task_queue s1 ! t') = Queued"
    by (cases rule: fire_cases, simp_all)+
  from invariant_exec[OF s1] have inv: "items_ok ps s1" "tail_ok s1"
    by (simp_all add: invariant_def)
  from args_step[OF s2 t'(1)] have t'2: "t' < length (task_queue s2)"
    "args (task_queue s2 ! t') = args (task_queue s1 ! t')" by simp_all
  from args_exec[OF s t'2(1)] t'2(2)
  have same': "args (task_queue s ! t') = args (task_queue s1 ! t')"
    and t's: "t' < length (task_queue s)" by simp_all
  let ?a = "owner (task_queue s1 ! t')"
  from same' k have k1: "item_index (task_queue s1 ! t') = Suc k" "owner (task_queue s ! t') = ?a"
    by (simp_all add: args_def)
  from item_lookup[OF inv(1) t'(1)] k1(1)
  have a: "?a < length ps" "k < chunk_index (invocations s1 ! ?a)" by simp_all
  from item_exists[OF inv(1) a] obtain t
    where t: "t < length (task_queue s1)" "args (task_queue s1 ! t) = (?a, k, fst (ps ! ?a) ! k)"
    by blast
  from t(2) k1(1) have "t \<noteq> t'" by (auto simp: args_def)
  with queued_is_last[OF inv(2) t'] t(1) have "Suc t < length (task_queue s1)" by simp
  with inv(2) have "signaled (task_queue s1 ! t)" by (simp add: tail_ok_def)
  with hist_exec[OF s1] t(1) have "CbSignal t \<in> set (take p tr)" by (simp add: hist_def)
  then obtain q where q: "q < p" "tr ! q = CbSignal t"
    by (auto simp: in_set_conv_nth)
  from args_step[OF s2 t(1)] have t2: "t < length (task_queue s2)"
    "args (task_queue s2 ! t) = args (task_queue s1 ! t)" by simp_all
  from args_exec[OF s t2(1)] t2(2) t(2)
  have "t < length (task_queue s)" "args (task_queue s ! t) = (?a, k, fst (ps ! ?a) ! k)" by simp_all
  with q k1(2)
  have first: "\<exists>t q. q < p \<and> tr ! q = CbSignal t \<and> t < length (task_queue s) \<and>
      owner (task_queue s ! t) = owner (task_queue s ! t') \<and> item_index (task_queue s ! t) = k"
    by (auto simp: args_def)
  from invariant_exec[OF run] have invs: "order_ok s" "tail_ok s"
    by (simp_all add: invariant_def)
  from invs(1) have ledger: "processing_order_semaphore s + length (filter holding_order (invocations s))
      + length (filter unsignaled (task_queue s)) = 1"
    by (simp add: order_ok_def units_filter)
  from invs(2) t's have "owner (task_queue s ! t') < length (invocations s)"
    by (simp add: tail_ok_def)
  from own_acquires_exec[OF run, unfolded own_acquires_def, rule_format, OF this]
  have "length (filter (\<lambda>e. e = OrderAcquire (owner (task_queue s ! t'))) tr)
      = length (items_of (owner (task_queue s ! t')) s)
        + (if holding_order (invocations s ! owner (task_queue s ! t')) then 1 else 0)"
    by (auto simp: units_filter items_of_def split: if_splits)
  with first ledger show ?thesis by simp
qed

theorem callbacks_start_after_signal_witness:
  "three_chunk_run ! 13 = CbStart 1 \<and>
   (\<exists>t q. q < 13 \<and> three_chunk_run ! q = CbSignal t \<and> item_index (finished_items ! t) = 0)"
proof -
  have p: "13 < length three_chunk_run" "three_chunk_run ! 13 = CbStart 1"
    by (simp_all add: three_chunk_run_def)
  from callbacks_start_after_signal[OF three_chunk_run_state p, of 0] p(2)
  show ?thesis by (auto simp: three_chunk_final_def finished_items_def)
qed

subsection \<open>The overlap bound\<close>

text \<open>
  Claim C2. In every state that any schedule of any number of concurrent calls of
  \<^verbatim>\<open>Process\<close> on one instance can reach, at most two callbacks are mid-execution
  (started, not yet returned or raised). The reason is the ledger of the count semaphore:
  its counter, the calls that have acquired a unit for a chunk not yet in the queue and
  the work items that have not executed their last statement always add up to 2.
\<close>

theorem overlap_bound:
  assumes "exec tr (init ps) = Some s"
  shows "length (filter in_callback (task_queue s)) \<le> 2 \<and>
    processing_count_semaphore s + length (filter holding_count (invocations s))
      + length (filter unfinished (task_queue s)) = 2"
proof -
  from invariant_exec[OF assms] have "count_ok s" by (simp add: invariant_def)
  then have ledger: "processing_count_semaphore s + length (filter holding_count (invocations s))
      + length (filter unfinished (task_queue s)) = 2"
    by (simp add: count_ok_def units_filter)
  have "length (filter in_callback (task_queue s)) \<le> length (filter unfinished (task_queue s))"
    by (rule filter_length_mono) (simp add: in_callback_def unfinished_def)
  with ledger show ?thesis by simp
qed

theorem overlap_bound_witness:
  "\<exists>s. exec overlap_run (init [([10, 20, 30 :: nat], [])]) = Some s \<and>
     length (filter in_callback (task_queue s)) = 2 \<and> processing_count_semaphore s = 0"
proof -
  obtain s where s: "exec overlap_run (init [([10, 20, 30 :: nat], [])]) = Some s"
    and two: "2 \<le> length (filter in_callback (task_queue s))"
    by (simp add: overlap_run_def init_def new_invocation_def step_defs in_callback_def)
  from overlap_bound[OF s] two
  have "length (filter in_callback (task_queue s)) = 2" "processing_count_semaphore s = 0"
    using filter_length_mono[of in_callback unfinished "task_queue s"]
    by (auto simp: in_callback_def unfinished_def)
  with s show ?thesis by blast
qed

subsection \<open>Return after all callbacks\<close>

text \<open>
  Claim C3, as stated: \<^verbatim>\<open>Process\<close> over a lane of \<open>N\<close> chunks returns only after exactly
  \<open>N\<close> callback invocations have run to completion, and it blocks in its two final
  acquires until every work item it submitted has finished executing. The first half
  holds; the second does not. The body of a work item releases the local semaphore of its
  call before it releases the count semaphore of the instance, and the two final acquires
  wait for the first of these releases only. In the run below, one call over one chunk
  with a callback that signals and returns, the call has returned while its work item
  still has the release of the count semaphore before it, and the count semaphore is at 1.
  The comment at the declaration of the local semaphore says that it is released after
  processing the task, which is what the body does.
\<close>

theorem process_returns_before_count_release:
  "map_option
     (\<lambda>s. (pc (invocations s ! 0),
            map (\<lambda>w. (item_index w, item_data w, phase w, signaled w)) (task_queue s),
            calls s, processing_count_semaphore s))
     (exec one_chunk_run (init [([10 :: nat], [])]))
   = Some (Returned, [(0, 10, AtCountRelease, True)], [(0, 0, 10)], 1)"
  by (simp add: one_chunk_run_state)

text \<open>
  Claim C3, amended: when call \<open>i\<close> over a lane of \<open>N\<close> chunks has returned, exactly
  \<open>N\<close> work items exist for it, each has returned from its callback and released the
  local semaphore of the call, and its callback has been invoked exactly \<open>N\<close> times; only
  the last statement of a work item, the release of the count semaphore of the instance,
  may still be pending at that moment. This holds whatever other calls do, since the two
  final acquires drain a semaphore that only the work items of this call release. The
  call does return: from every reachable state in which the callbacks have behaved, the
  schedule can be continued until the call has returned, and no schedule is longer than 6
  steps per call plus 10 per chunk.
\<close>

theorem returns_after_all_callbacks:
  assumes run: "exec tr (init ps) = Some s" and i: "i < length ps"
  shows "(pc (invocations s ! i) = Returned \<longrightarrow>
       length (items_of i s) = length (fst (ps ! i)) \<and>
       (\<forall>w \<in> set (items_of i s). released_cur (phase w)) \<and>
       length (calls_of i s) = length (fst (ps ! i))) \<and>
    (well_behaved s \<longrightarrow>
       (\<exists>tr' s'. exec (tr @ tr') (init ps) = Some s' \<and> pc (invocations s' ! i) = Returned)) \<and>
    length tr \<le> sum_list (map (\<lambda>a. 6 + 10 * length (fst a)) ps)"
proof -
  from invariant_exec[OF run]
  have inv: "cur_ok s" "lanes_ok ps s" "items_ok ps s" "calls_ok s"
    by (simp_all add: invariant_def)
  have safe: "length (items_of i s) = length (fst (ps ! i)) \<and>
       (\<forall>w \<in> set (items_of i s). released_cur (phase w)) \<and>
       length (calls_of i s) = length (fst (ps ! i))"
    if r: "pc (invocations s ! i) = Returned"
  proof -
    from inv(2) i r have n: "chunk_index (invocations s ! i) = length (fst (ps ! i))"
      and len: "i < length (invocations s)"
      by (auto simp: lanes_ok_def lane_ok_at_def)
    from items_of_args[OF inv(3,2) i] n
    have "length (map (\<lambda>w. (item_index w, item_data w)) (items_of i s)) = length (fst (ps ! i))"
      by simp
    then have a: "length (items_of i s) = length (fst (ps ! i))" by simp
    have b: "released_cur (phase w)" if "w \<in> set (items_of i s)" for w
      using that returned_items[OF inv(1) len r, of w] by (simp add: items_of_def)
    from calls_of_returned[OF inv(1,4) len r] a
    have "length (calls_of i s) = length (fst (ps ! i))" by simp
    with a b show ?thesis by simp
  qed
  have live: "\<exists>tr' s'. exec (tr @ tr') (init ps) = Some s' \<and> pc (invocations s' ! i) = Returned"
    if wb: "well_behaved s"
  proof -
    from every_run_completes[OF run wb] obtain tr' s'
      where c: "exec (tr @ tr') (init ps) = Some s'" "all_done s'" by blast
    from invariant_exec[OF c(1)] i have "i < length (invocations s')"
      by (simp add: invariant_def lanes_ok_def)
    with c show ?thesis by (auto simp: all_done_def)
  qed
  from safe live runs_are_bounded[OF run] show ?thesis by blast
qed

theorem returns_after_all_callbacks_witness:
  "pc (invocations three_chunk_final ! 0) = Returned \<and>
   length (items_of 0 three_chunk_final) = 3 \<and> length (calls_of 0 three_chunk_final) = 3 \<and>
   length three_chunk_run \<le> 36 \<and>
   (\<exists>tr' s'. exec tr' (init [([10, 20, 30 :: nat], [])]) = Some s' \<and> pc (invocations s' ! 0) = Returned)"
proof -
  have r: "pc (invocations three_chunk_final ! 0) = Returned"
    by (simp add: three_chunk_final_def)
  have "exec [] (init [([10, 20, 30 :: nat], [])]) = Some (init [([10, 20, 30], [])])" by simp
  from returns_after_all_callbacks[OF this, of 0]
  have live: "\<exists>tr' s'. exec tr' (init [([10, 20, 30 :: nat], [])]) = Some s' \<and> pc (invocations s' ! 0) = Returned"
    by (simp add: well_behaved_def init_def)
  from returns_after_all_callbacks[OF three_chunk_run_state, of 0] r live
  show ?thesis by simp
qed

subsection \<open>Two concurrent calls\<close>

text \<open>
  Claim C4. Let a callback of call \<open>b\<close> start (the last event of the schedule; in
  particular the first callback of \<open>b\<close>). Then every other call \<open>a\<close> has at most one
  work item that is queued and not finished, because the starting work item holds one of
  the two units of the count semaphore. If moreover \<open>a\<close> acquired the lane semaphore
  before \<open>b\<close> did, then \<open>a\<close> has released it, which it does only after reading its lane
  to the end and submitting every chunk.
\<close>

theorem second_stream_waits:
  assumes run: "exec (tr @ [CbStart t]) (init ps) = Some s"
    and b: "owner (task_queue s ! t) = b" and ab: "a \<noteq> b"
  shows "outstanding a s \<le> 1 \<and>
    (LaneAcquire a \<in> set (takeWhile (\<lambda>e. e \<noteq> LaneAcquire b) tr) \<longrightarrow>
       past_pulling (invocations s ! a) \<and> data_lane (invocations s ! a) = [] \<and>
       map (\<lambda>w. (item_index w, item_data w)) (items_of a s) = enumerate 0 (fst (ps ! a)))"
proof -
  from b ab have ne: "owner (task_queue s ! t) \<noteq> a" by simp
  from invariant_exec[OF run] have inv: "lanes_ok ps s" "items_ok ps s"
    by (simp_all add: invariant_def)
  show ?thesis
    using cross_stream(1)[OF run ne] cross_stream(2)[OF run ne] pulled_all[OF inv] b
    by auto
qed

theorem second_stream_waits_witness:
  "\<exists>s. exec (a1_slow_run @ [CbStart 3]) (init two_streams) = Some s \<and> outstanding 0 s = 1 \<and>
     data_lane (invocations s ! 0) = [] \<and>
     map (\<lambda>w. (item_index w, item_data w)) (items_of 0 s) = [(0, 10), (1, 20), (2, 30)]"
proof -
  obtain s where s: "exec (a1_slow_run @ [CbStart 3]) (init two_streams) = Some s"
    and b: "owner (task_queue s ! 3) = 1" and one: "1 \<le> outstanding 0 s"
    by (simp add: a1_slow_run_state outstanding_def unfinished_def)
  have first: "LaneAcquire 0 \<in> set (takeWhile (\<lambda>e. e \<noteq> LaneAcquire 1) a1_slow_run)"
    by (simp add: a1_slow_run_def)
  from second_stream_waits[OF s b, of 0] first one
  have "outstanding 0 s = 1" "data_lane (invocations s ! 0) = []"
    "map (\<lambda>w. (item_index w, item_data w)) (items_of 0 s) = enumerate 0 (fst (two_streams ! 0))"
    by simp_all
  moreover have "enumerate 0 (fst (two_streams ! 0)) = [(0, 10), (1, 20), (2, 30)]"
    by (simp add: two_streams_def)
  ultimately show ?thesis using s by simp
qed

text \<open>
  Claim C5, as stated: with call A over \<open>[a0, a1, a2]\<close> and call B over \<open>[b0, b1]\<close>, A
  first at the lane semaphore, the callback of \<open>b0\<close> does not start until \<open>a2\<close> is
  queued and \<open>a1\<close> has finished. The second half fails. Work items release the count
  semaphore when they finish, in whatever order that is: in the run below \<open>a0\<close> and \<open>a2\<close>
  have finished, \<open>a1\<close> is still inside its callback, and the callback of \<open>b0\<close> starts.
  This is what the header promises (all but one chunk of the first lane is done).
\<close>

theorem b0_starts_before_a1_finishes:
  "map_option (\<lambda>s. map (\<lambda>w. (owner w, item_index w, item_data w, phase w)) (task_queue s))
     (exec (a1_slow_run @ [CbStart 3]) (init two_streams))
   = Some [(0, 0, 10, Finished), (0, 1, 20, InCallback), (0, 2, 30, Finished),
           (1, 0, 40, InCallback)] \<and>
   LaneAcquire 0 \<in> set (takeWhile (\<lambda>e. e \<noteq> LaneAcquire 1) a1_slow_run)"
  by (simp add: a1_slow_run_state) (simp add: a1_slow_run_def)

text \<open>
  Claim C5, amended: the callback of \<open>b0\<close> does not start until \<open>a0\<close>, \<open>a1\<close> and \<open>a2\<close>
  have all been queued and at most one of the three, whichever it is, is not finished.
\<close>

theorem scenario_b0_waits:
  assumes run: "exec (tr @ [CbStart t]) (init [([a0, a1, a2], ta), ([b0, b1], tb)]) = Some s"
    and b0: "owner (task_queue s ! t) = 1"
    and first: "LaneAcquire 0 \<in> set (takeWhile (\<lambda>e. e \<noteq> LaneAcquire 1) tr)"
  shows "map (\<lambda>w. (item_index w, item_data w)) (items_of 0 s) = [(0, a0), (1, a1), (2, a2)] \<and>
    outstanding 0 s \<le> 1"
proof -
  let ?ps = "[([a0, a1, a2], ta), ([b0, b1], tb)]"
  from b0 have ne: "owner (task_queue s ! t) \<noteq> 0" by simp
  from invariant_exec[OF run] have inv: "lanes_ok ?ps s" "items_ok ?ps s"
    by (simp_all add: invariant_def)
  from cross_stream(2)[OF run ne] first b0
  have "0 < length ?ps" "past_pulling (invocations s ! 0)" by simp_all
  from pulled_all[OF inv this]
  have "map (\<lambda>w. (item_index w, item_data w)) (items_of 0 s) = enumerate 0 [a0, a1, a2]"
    by simp
  with cross_stream(1)[OF run ne] show ?thesis by simp
qed

theorem scenario_b0_waits_witness:
  "\<exists>s. exec (a1_slow_run @ [CbStart 3]) (init two_streams) = Some s \<and>
     map (\<lambda>w. (item_index w, item_data w)) (items_of 0 s) = [(0, 10), (1, 20), (2, 30)] \<and>
     outstanding 0 s \<le> 1"
proof -
  obtain s where s: "exec (a1_slow_run @ [CbStart 3]) (init two_streams) = Some s"
    and b: "owner (task_queue s ! 3) = 1"
    by (simp add: a1_slow_run_state)
  have first: "LaneAcquire 0 \<in> set (takeWhile (\<lambda>e. e \<noteq> LaneAcquire 1) a1_slow_run)"
    by (simp add: a1_slow_run_def)
  from scenario_b0_waits[OF s[unfolded two_streams_def] b first] s show ?thesis by auto
qed

subsection \<open>Delivery\<close>

text \<open>
  Claim C6. For each call, the (index, payload) pairs its callback has received, in the
  order in which the invocations started, are an initial segment of
  \<open>(0, x\<^sub>0), (1, x\<^sub>1), ...\<close> over the chunks \<open>x\<^sub>0, x\<^sub>1, ...\<close> of its lane: each chunk is handed
  over at most once, with its place in the lane as index. The work items submitted so far
  are exactly the chunks read so far, and once the call has returned every chunk of the
  lane has been handed to exactly one callback invocation. As long as no callback has
  returned without releasing the order semaphore or left by an exception, the run can be
  continued to a state in which this is the case.
\<close>

theorem delivery_exact:
  assumes run: "exec tr (init ps) = Some s" and i: "i < length ps"
  shows "prefix (calls_of i s) (enumerate 0 (fst (ps ! i))) \<and>
    map (\<lambda>w. (item_index w, item_data w)) (items_of i s)
      = take (chunk_index (invocations s ! i)) (enumerate 0 (fst (ps ! i))) \<and>
    (pc (invocations s ! i) = Returned \<longrightarrow> calls_of i s = enumerate 0 (fst (ps ! i))) \<and>
    (well_behaved s \<longrightarrow>
       (\<exists>tr' s'. exec (tr @ tr') (init ps) = Some s' \<and>
          calls_of i s' = enumerate 0 (fst (ps ! i))))"
proof -
  have full: "calls_of i u = enumerate 0 (fst (ps ! i))"
    if u: "exec tu (init ps) = Some u" and r: "pc (invocations u ! i) = Returned" for tu u
  proof -
    from invariant_exec[OF u]
    have inv: "cur_ok u" "lanes_ok ps u" "items_ok ps u" "calls_ok u"
      by (simp_all add: invariant_def)
    from inv(2) i r have n: "chunk_index (invocations u ! i) = length (fst (ps ! i))"
      and len: "i < length (invocations u)"
      by (auto simp: lanes_ok_def lane_ok_at_def)
    from calls_of_returned[OF inv(1,4) len r] items_of_args[OF inv(3,2) i] n
    show ?thesis by simp
  qed
  from invariant_exec[OF run]
  have inv: "lanes_ok ps s" "items_ok ps s" "tail_ok s" "calls_ok s"
    by (simp_all add: invariant_def)
  note eq = items_of_args[OF inv(2,1) i]
  have "prefix (calls_of i s) (take (chunk_index (invocations s ! i)) (enumerate 0 (fst (ps ! i))))"
    using calls_of_prefix[OF inv(4,3), of i] eq by simp
  then have p: "prefix (calls_of i s) (enumerate 0 (fst (ps ! i)))"
    using take_is_prefix prefix_order.order_trans by blast
  have live: "\<exists>tr' s'. exec (tr @ tr') (init ps) = Some s' \<and>
      calls_of i s' = enumerate 0 (fst (ps ! i))" if wb: "well_behaved s"
  proof -
    from every_run_completes[OF run wb] obtain tr' s'
      where c: "exec (tr @ tr') (init ps) = Some s'" "all_done s'" by blast
    from invariant_exec[OF c(1)] i have "i < length (invocations s')"
      by (simp add: invariant_def lanes_ok_def)
    with c(2) have "pc (invocations s' ! i) = Returned" by (simp add: all_done_def)
    from full[OF c(1) this] c(1) show ?thesis by blast
  qed
  from p eq full[OF run] live show ?thesis by blast
qed

theorem delivery_exact_witness:
  "\<exists>s. exec three_chunk_run (init [([10, 20, 30 :: nat], [])]) = Some s \<and>
     calls_of 0 s = [(0, 10), (1, 20), (2, 30)]"
proof -
  obtain s where s: "exec three_chunk_run (init [([10, 20, 30 :: nat], [])]) = Some s"
    and r: "pc (invocations s ! 0) = Returned"
    by (simp add: three_chunk_run_state three_chunk_final_def)
  from delivery_exact[OF s, of 0] r have "calls_of 0 s = enumerate 0 [10, 20, 30]" by simp
  with s show ?thesis by simp
qed

subsection \<open>The empty lane\<close>

text \<open>
  Claim C7. A call on a lane that emits no chunk never executes a statement of
  \<^verbatim>\<open>QueueChunk\<close> and submits no work item. As soon as the lane semaphore is free, or the
  call already holds it, the remaining statements of the call run to the return one after
  the other without waiting for any other thread; the two final acquires find the local
  semaphore at 2. They leave the count semaphore, the order semaphore and the task queue
  as they were and give back the lane semaphore if the call held it. After the return the
  call has acquired the lane semaphore once and released it once, and if every other call
  is quiet the three semaphores are at 2, 1 and 1.
\<close>

theorem empty_stream_returns:
  assumes run: "exec tr (init ps) = Some s" and i: "i < length ps" "fst (ps ! i) = []"
  shows "CountAcquire i \<notin> set tr \<and> CurAcquire i \<notin> set tr \<and> OrderAcquire i \<notin> set tr \<and>
    Emplace i \<notin> set tr \<and> items_of i s = [] \<and>
    (pc (invocations s ! i) \<noteq> AtLaneAcquire \<or> 0 < lane_process_semaphore s \<longrightarrow>
       (\<exists>s'. exec (remaining i (pc (invocations s ! i))) s = Some s' \<and>
          pc (invocations s' ! i) = Returned \<and>
          processing_count_semaphore s' = processing_count_semaphore s \<and>
          processing_order_semaphore s' = processing_order_semaphore s \<and>
          lane_process_semaphore s'
            = lane_process_semaphore s + (if pulling (invocations s ! i) then 1 else 0) \<and>
          task_queue s' = task_queue s)) \<and>
    (pc (invocations s ! i) = Returned \<longrightarrow>
       length (filter (\<lambda>e. e = LaneAcquire i) tr) = 1 \<and>
       length (filter (\<lambda>e. e = LaneRelease i) tr) = 1 \<and>
       ((\<forall>j < length ps. j \<noteq> i \<longrightarrow> quiet j s) \<longrightarrow>
          processing_count_semaphore s = 2 \<and> processing_order_semaphore s = 1 \<and>
          lane_process_semaphore s = 1))"
proof -
  note inv = invariant_exec[OF run]
  note st = empty_lane_state[OF inv i]
  have a: "CountAcquire i \<notin> set tr" "CurAcquire i \<notin> set tr" "OrderAcquire i \<notin> set tr"
    "Emplace i \<notin> set tr"
    using queue_chunk_needs_chunk[OF run, of _ i] i(2) by blast+
  have c: "length (filter (\<lambda>e. e = LaneAcquire i) tr) = 1 \<and>
       length (filter (\<lambda>e. e = LaneRelease i) tr) = 1 \<and>
       ((\<forall>j < length ps. j \<noteq> i \<longrightarrow> quiet j s) \<longrightarrow>
          processing_count_semaphore s = 2 \<and> processing_order_semaphore s = 1 \<and>
          lane_process_semaphore s = 1)"
    if r: "pc (invocations s ! i) = Returned"
  proof -
    from own_acquires_exec[OF run, unfolded own_acquires_def, rule_format, OF st(4)] r
    have "length (filter (\<lambda>e. e = LaneAcquire i) tr) = 1"
      "length (filter (\<lambda>e. e = LaneRelease i) tr) = 1"
      by (simp_all add: past_pulling_def)
    moreover have "processing_count_semaphore s = 2 \<and> processing_order_semaphore s = 1 \<and>
          lane_process_semaphore s = 1"
      if others: "\<forall>j < length ps. j \<noteq> i \<longrightarrow> quiet j s"
    proof -
      have "quiet j s" if "j < length ps" for j
        using that others r st(1) by (cases "j = i") (simp_all add: quiet_def)
      from all_quiet_semaphores[OF inv this] show ?thesis .
    qed
    ultimately show ?thesis by simp
  qed
  from a st(1) empty_lane_finishes[OF inv i] c show ?thesis by blast
qed

theorem empty_stream_returns_witness:
  "\<exists>s. exec [LaneAcquire 0, LaneRead 0, LaneRelease 0, DrainAcquire 0, DrainAcquire 0,
       ProcessReturn 0] (init [([] :: nat list, [])]) = Some s \<and>
     pc (invocations s ! 0) = Returned \<and> task_queue s = [] \<and>
     processing_count_semaphore s = 2 \<and> processing_order_semaphore s = 1 \<and>
     lane_process_semaphore s = 1"
proof -
  have "exec [] (init [([] :: nat list, [])]) = Some (init [([], [])])" by simp
  from empty_stream_returns[OF this, of 0]
  show ?thesis by (auto simp: init_def new_invocation_def pulling_def)
qed

subsection \<open>The label\<close>

text \<open>
  Claim C8. Take the same lanes with two assignments of labels. Every schedule is then
  enabled in both or in neither, and the two states reached are equal once the stored
  labels and the log are forgotten: semaphores, control points, work items and callback
  invocations do not depend on the labels. And a run in which every call that took a step
  has the empty label writes nothing to the log.
\<close>

theorem label_is_inert:
  shows "(map fst ps = map fst ps' \<longrightarrow>
      map_option erase (exec tr (init ps)) = map_option erase (exec tr (init ps'))) \<and>
    ((\<forall>e \<in> set tr. \<forall>i. actor e = Some i \<longrightarrow> snd (ps ! i) = []) \<longrightarrow>
      exec tr (init ps) = Some s \<longrightarrow> debug_log s = [])"
proof (intro conjI impI)
  assume same: "map fst ps = map fst ps'"
  have "map (\<lambda>a. (fst a, [] :: string)) ps = map (\<lambda>x. (x, [] :: string)) (map fst ps)"
    by (simp add: comp_def)
  also have "\<dots> = map (\<lambda>x. (x, [] :: string)) (map fst ps')"
    by (simp only: same)
  also have "\<dots> = map (\<lambda>a. (fst a, [] :: string)) ps'"
    by (simp add: comp_def)
  finally have "map (\<lambda>a. (fst a, [] :: string)) ps = map (\<lambda>a. (fst a, [] :: string)) ps'" .
  then have "erase (init ps) = erase (init ps')" by (simp add: erase_init)
  then show "map_option erase (exec tr (init ps)) = map_option erase (exec tr (init ps'))"
    by (simp add: exec_erase[symmetric])
next
  assume "\<forall>e \<in> set tr. \<forall>i. actor e = Some i \<longrightarrow> snd (ps ! i) = []" "exec tr (init ps) = Some s"
  then show "debug_log s = []" using silent_exec[of tr ps s] by blast
qed

theorem label_is_inert_witness:
  "map_option erase (exec three_chunk_run (init [([10, 20, 30 :: nat], ''x'')]))
     = map_option erase (exec three_chunk_run (init [([10, 20, 30], [])])) \<and>
   (\<exists>s. exec three_chunk_run (init [([10, 20, 30 :: nat], [])]) = Some s \<and> debug_log s = []) \<and>
   (\<exists>s. exec three_chunk_run (init [([10, 20, 30 :: nat], ''x'')]) = Some s \<and>
      length (debug_log s) = 5)"
proof -
  have silent: "\<forall>e \<in> set three_chunk_run. \<forall>i. actor e = Some i \<longrightarrow>
      snd ([([10, 20, 30 :: nat], [])] ! i) = []"
    by (simp add: three_chunk_run_def)
  from label_is_inert[of "[([10, 20, 30 :: nat], ''x'')]" "[([10, 20, 30], [])]" three_chunk_run]
  have a: "map_option erase (exec three_chunk_run (init [([10, 20, 30 :: nat], ''x'')]))
     = map_option erase (exec three_chunk_run (init [([10, 20, 30], [])]))"
    by simp
  from label_is_inert[of "[([10, 20, 30 :: nat], [])]" _ three_chunk_run three_chunk_final]
    silent three_chunk_run_state
  have "debug_log three_chunk_final = []" by blast
  with a show ?thesis
    by (simp add: three_chunk_run_state three_chunk_run_labelled)
qed

subsection \<open>Semaphores after a call\<close>

text \<open>
  Claim C9. Let call \<open>i\<close> over \<open>N\<close> chunks have returned and let each of its work items
  have finished after signalling (every callback signalled once and returned normally).
  Then the schedule holds \<open>N\<close> acquires of the count semaphore by the call and \<open>N\<close>
  releases of it by its work items, \<open>N\<close> acquires of the order semaphore by the call and
  \<open>N\<close> signals by its callbacks, one acquire and one release of the lane semaphore. If
  every other call of the instance is quiet as well, the three semaphores are back at 2, 1
  and 1, and each has seen as many acquires as releases.
\<close>

theorem semaphores_restored:
  assumes run: "exec tr (init ps) = Some s"
    and i: "i < length ps" "pc (invocations s ! i) = Returned"
    and complete: "\<forall>w \<in> set (items_of i s). phase w = Finished \<and> signaled w"
  shows "length (filter (\<lambda>e. e = CountAcquire i) tr) = length (fst (ps ! i)) \<and>
    length (filter (releases_count_for s i) tr) = length (fst (ps ! i)) \<and>
    length (filter (\<lambda>e. e = OrderAcquire i) tr) = length (fst (ps ! i)) \<and>
    length (filter (signals_for s i) tr) = length (fst (ps ! i)) \<and>
    length (filter (\<lambda>e. e = LaneAcquire i) tr) = 1 \<and>
    length (filter (\<lambda>e. e = LaneRelease i) tr) = 1 \<and>
    ((\<forall>j < length ps. j \<noteq> i \<longrightarrow> quiet j s) \<longrightarrow>
       processing_count_semaphore s = 2 \<and> processing_order_semaphore s = 1 \<and>
       lane_process_semaphore s = 1 \<and>
       length (filter acquires_count tr) = length (filter releases_count tr) \<and>
       length (filter acquires_order tr) = length (filter releases_order tr) \<and>
       length (filter acquires_lane tr) = length (filter releases_lane tr))"
proof -
  note inv = invariant_exec[OF run]
  then have l: "lanes_ok ps s" "items_ok ps s" by (simp_all add: invariant_def)
  from l(1) i have len: "i < length (invocations s)" by (simp add: lanes_ok_def)
  from pulled_all[OF l i(1)] i(2)
  have "length (map (\<lambda>w. (item_index w, item_data w)) (items_of i s)) = length (fst (ps ! i))"
    by (simp add: past_pulling_def)
  then have n: "units (\<lambda>w. owner w = i) (task_queue s) = int (length (fst (ps ! i)))"
    by (simp add: items_of_def units_filter)
  from complete have fin: "units (\<lambda>w. owner w = i \<and> phase w = Finished) (task_queue s)
      = units (\<lambda>w. owner w = i) (task_queue s)"
    and sig: "units (\<lambda>w. owner w = i \<and> signaled w) (task_queue s)
      = units (\<lambda>w. owner w = i) (task_queue s)"
    by (auto intro!: units_all simp: items_of_def)
  from own_acquires_exec[OF run, unfolded own_acquires_def, rule_format, OF len] i(2) n
  have acq: "length (filter (\<lambda>e. e = CountAcquire i) tr) = length (fst (ps ! i))"
    "length (filter (\<lambda>e. e = OrderAcquire i) tr) = length (fst (ps ! i))"
    "length (filter (\<lambda>e. e = LaneAcquire i) tr) = 1"
    "length (filter (\<lambda>e. e = LaneRelease i) tr) = 1"
    by (simp_all add: holding_count_def holding_order_def past_pulling_def)
  from own_releases_exec[OF run, unfolded own_releases_def, rule_format, of i] fin sig n
  have rel: "length (filter (releases_count_for s i) tr) = length (fst (ps ! i))"
    "length (filter (signals_for s i) tr) = length (fst (ps ! i))"
    by simp_all
  have "processing_count_semaphore s = 2 \<and> processing_order_semaphore s = 1 \<and>
       lane_process_semaphore s = 1 \<and>
       length (filter acquires_count tr) = length (filter releases_count tr) \<and>
       length (filter acquires_order tr) = length (filter releases_order tr) \<and>
       length (filter acquires_lane tr) = length (filter releases_lane tr)"
    if others: "\<forall>j < length ps. j \<noteq> i \<longrightarrow> quiet j s"
  proof -
    have "quiet j s" if "j < length ps" for j
      using that others i(2) complete by (cases "j = i") (simp_all add: quiet_def)
    from all_quiet_semaphores[OF inv this] semaphore_totals_exec[OF run] show ?thesis
      by (simp add: semaphore_totals_def)
  qed
  with acq rel show ?thesis by simp
qed

theorem semaphores_restored_witness:
  "exec three_chunk_run (init [([10, 20, 30], [])]) = Some three_chunk_final \<and>
   length (filter (\<lambda>e. e = CountAcquire 0) three_chunk_run) = 3 \<and>
   length (filter (releases_count_for three_chunk_final 0) three_chunk_run) = 3 \<and>
   length (filter (\<lambda>e. e = OrderAcquire 0) three_chunk_run) = 3 \<and>
   length (filter (signals_for three_chunk_final 0) three_chunk_run) = 3 \<and>
   processing_count_semaphore three_chunk_final = 2 \<and>
   processing_order_semaphore three_chunk_final = 1 \<and>
   lane_process_semaphore three_chunk_final = 1"
proof -
  have r: "pc (invocations three_chunk_final ! 0) = Returned"
    by (simp add: three_chunk_final_def)
  have c: "\<forall>w \<in> set (items_of 0 three_chunk_final). phase w = Finished \<and> signaled w"
    by (simp add: three_chunk_final_def items_of_def finished_items_def)
  from semaphores_restored[OF three_chunk_run_state _ r c] show ?thesis
    by (simp add: three_chunk_run_state)
qed

subsection \<open>A callback that raises\<close>

text \<open>
  Claim C10. Once the callback of a work item has left by an exception, the two releases
  that follow the callback in the body of the work item are never executed. In every
  continuation the call that submitted it has not returned and has not completed its
  second final acquire, and the count semaphore stays below its capacity by one unit for
  each callback that raised. No statement of the coordinator releases on behalf of the
  work item: the only releases of these two semaphores are the events \<open>CurRelease\<close> and
  \<open>CountRelease\<close> of the work item itself.
\<close>

theorem raise_skips_releases:
  assumes run: "exec tr (init ps) = Some s" and raise: "CbRaise t \<in> set tr"
  shows "t < length (task_queue s) \<and> phase (task_queue s ! t) = Aborted \<and>
    CurRelease t \<notin> set tr \<and> CountRelease t \<notin> set tr \<and>
    ProcessReturn (owner (task_queue s ! t)) \<notin> set tr \<and>
    pc (invocations s ! owner (task_queue s ! t)) \<noteq> Returned \<and>
    pc (invocations s ! owner (task_queue s ! t)) \<noteq> AtDrain 2 \<and>
    processing_count_semaphore s + length (filter aborted (task_queue s)) \<le> 2 \<and>
    processing_count_semaphore s \<le> 1"
proof -
  from invariant_exec[OF run]
  have inv: "count_ok s" "cur_ok s" "tail_ok s" by (simp_all add: invariant_def)
  note h = hist_exec[OF run]
  from h raise have t: "t < length (task_queue s)" "phase (task_queue s ! t) = Aborted"
    by (simp_all add: hist_def)
  let ?a = "owner (task_queue s ! t)"
  from h t have rel: "CurRelease t \<notin> set tr" "CountRelease t \<notin> set tr"
    by (simp_all add: hist_def released_cur_def)
  from inv(3) t(1) have a: "?a < length (invocations s)" by (simp add: tail_ok_def)
  from t have "1 \<le> units (cur_pending ?a) (task_queue s)"
    by (intro units_member[of t]) (simp_all add: cur_pending_def)
  with inv(2) a have "cur_taken (invocations s ! ?a) \<le> 1"
    by (auto simp: cur_ok_def)
  then have pc: "pc (invocations s ! ?a) \<noteq> Returned" "pc (invocations s ! ?a) \<noteq> AtDrain 2"
    by (auto simp: cur_taken_def)
  have "length (filter aborted (task_queue s)) \<le> length (filter unfinished (task_queue s))"
    by (rule filter_length_mono) (simp add: aborted_def unfinished_def)
  moreover from inv(1) have "processing_count_semaphore s + length (filter unfinished (task_queue s)) \<le> 2"
    using units_nonneg[of holding_count "invocations s"] by (simp add: count_ok_def units_filter)
  ultimately have c: "processing_count_semaphore s + length (filter aborted (task_queue s)) \<le> 2"
    by simp
  from t have "task_queue s ! t \<in> set (filter aborted (task_queue s))"
    by (simp add: aborted_def)
  then have "0 < length (filter aborted (task_queue s))" by (metis length_pos_if_in_set)
  with c have c1: "processing_count_semaphore s \<le> 1" by linarith
  from h pc(1) have "ProcessReturn ?a \<notin> set tr" by (simp add: hist_def)
  with t rel pc c c1 show ?thesis by simp
qed

theorem raise_skips_releases_witness:
  "\<exists>s. exec raise_run (init [([10 :: nat], [])]) = Some s \<and>
     pc (invocations s ! 0) = AtDrain 1 \<and> fire (DrainAcquire 0) s = None \<and>
     fire (CurRelease 0) s = None \<and> fire (CountRelease 0) s = None \<and>
     processing_count_semaphore s \<le> 1"
proof -
  obtain s where s: "exec raise_run (init [([10 :: nat], [])]) = Some s"
    and r: "pc (invocations s ! 0) = AtDrain 1" "fire (DrainAcquire 0) s = None"
      "fire (CurRelease 0) s = None" "fire (CountRelease 0) s = None"
    by (simp add: raise_run_state step_defs)
  have "CbRaise 0 \<in> set raise_run" by (simp add: raise_run_def)
  from raise_skips_releases[OF s this] s r show ?thesis by auto
qed

end
